theory Spec2Isabelle
  imports Main "HOL-Library.Sublist"
begin

section \<open>The Refactorizor pipeline of \<^verbatim>\<open>refactorizor.py\<close>\<close>

text \<open>
  The script applies a list of changes to files of the working directory, appends a
  section to \<^verbatim>\<open>CODEBASE.md\<close> and commits. Each change is a Python dict from
  strings to strings; a key that is missing raises \<^verbatim>\<open>KeyError\<close>.

  The working directory, the git index and the history are the state the program acts
  on. Every operation returns the state it leaves behind, also when it raises: Python
  does not undo the writes of the statements that ran before the exception.

  Scope of the state model: a POSIX system, where writing in text mode stores the
  characters as they are; every existing path is a regular text file that can be read
  and written (no directories, no permissions, no encodings), two paths are the same
  file exactly when they are the same string, and the current directory does not change.
\<close>

subsection \<open>Data\<close>

type_synonym change = "string \<rightharpoonup> string"

datatype error =
    KeyError string
  | ValueError string
  | InvalidGitRepositoryError
  | FileNotFoundError string
  | ReError string

record commit =
  message :: string
  tree :: "string \<rightharpoonup> string"

datatype retval = NoneVal | CommitVal commit

record world =
  files :: "string \<rightharpoonup> string"
  is_repo :: bool
  index :: "string \<rightharpoonup> string"
  commits :: "commit list"

type_synonym outcome = "(error + retval) \<times> world"

definition NL :: char where
  "NL = CHR 0x0A"

definition CR :: char where
  "CR = CHR 0x0D"

definition TAB :: char where
  "TAB = CHR 0x09"

definition QUOTE :: char where
  "QUOTE = CHR 0x27"

definition BACKSLASH :: char where
  "BACKSLASH = CHR 0x5C"

subsection \<open>Reading a file in text mode\<close>

text \<open>
  \<^verbatim>\<open>open(target_file, "r")\<close> has no \<^verbatim>\<open>newline\<close> argument, so \<^verbatim>\<open>f.read()\<close> returns
  the text with every CR LF and every other CR turned into LF.
\<close>

fun universal_newlines :: "string \<Rightarrow> string" where
  "universal_newlines [] = []"
| "universal_newlines [c] = [if c = CR then NL else c]"
| "universal_newlines (c # d # ds) =
     (if c = CR \<and> d = NL then NL # universal_newlines ds
      else if c = CR then NL # universal_newlines (d # ds)
      else c # universal_newlines (d # ds))"

subsection \<open>\<^verbatim>\<open>re.sub\<close>\<close>

text \<open>
  \<^verbatim>\<open>re.sub(pattern, repl, string)\<close> is called without \<^verbatim>\<open>count\<close>: the library searches
  for a match from the start of the string, copies the text before the match and the
  expansion of the template for it, and searches again from the end of the match, until
  a search fails; then it copies the rest of the string. A search tries the start
  positions from left to right, up to the end of the string. After an empty match the
  next search must advance: at its first position a match that ends where it starts is
  refused.

  What the pattern matches at one position is the work of the regular expression
  engine. The model takes it as a parameter: \<open>match_at\<close> gives, for a pattern, a
  template, a text and a position, the matches that start there, in the order in which
  the engine would take them, each with its length and the expansion of the template
  for it; \<open>compile_error\<close> gives the \<^verbatim>\<open>re.error\<close> that a malformed pattern or
  template raises before any search.
\<close>

record engine =
  compile_error :: "string \<Rightarrow> string \<Rightarrow> error option"
  match_at :: "string \<Rightarrow> string \<Rightarrow> string \<Rightarrow> nat \<Rightarrow> (nat \<times> string) list"

text \<open>
  Where the pattern stands for one fixed string the model computes the matches itself.
  These are the patterns made of ordinary characters, of a backslash followed by a
  character that is neither a letter nor a digit (which stands for that character), of
  the escapes \<^verbatim>\<open>\n\<close>, \<^verbatim>\<open>\r\<close> and \<^verbatim>\<open>\t\<close>, and of an opening brace that cannot start a
  repetition count. A template without backslash is inserted as it is.
\<close>

definition special_chars :: "char set" where
  "special_chars = set ''.^$*+?{[|()'' \<union> {BACKSLASH}"

definition digits :: "char set" where
  "digits = set ''0123456789''"

definition ascii_letters :: "char set" where
  "ascii_letters = set ''abcdefghijklmnopqrstuvwxyzABCDEFGHIJKLMNOPQRSTUVWXYZ''"

definition unescape :: "char \<Rightarrow> char option" where
  "unescape d =
     (if d = CHR ''n'' then Some NL
      else if d = CHR ''r'' then Some CR
      else if d = CHR ''t'' then Some TAB
      else if d \<in> ascii_letters \<union> digits then None
      else Some d)"

fun literal_of :: "string \<Rightarrow> string option" where
  "literal_of [] = Some []"
| "literal_of [c] =
     (if c = CHR ''{'' then Some [c]
      else if c \<in> special_chars then None
      else Some [c])"
| "literal_of (c # d # ds) =
     (if c = BACKSLASH then
        (case unescape d of
           None \<Rightarrow> None
         | Some e \<Rightarrow> map_option ((#) e) (literal_of ds))
      else if c = CHR ''{'' then
        (if d \<in> digits \<or> d = CHR '','' then None
         else map_option ((#) c) (literal_of (d # ds)))
      else if c \<in> special_chars then None
      else map_option ((#) c) (literal_of (d # ds)))"

definition plain_repl :: "string \<Rightarrow> bool" where
  "plain_repl r \<longleftrightarrow> BACKSLASH \<notin> set r"

definition re_error :: "engine \<Rightarrow> string \<Rightarrow> string \<Rightarrow> error option" where
  "re_error eng pattern repl =
     (if literal_of pattern \<noteq> None \<and> plain_repl repl then None
      else compile_error eng pattern repl)"

definition candidates :: "engine \<Rightarrow> string \<Rightarrow> string \<Rightarrow> string \<Rightarrow> nat \<Rightarrow> (nat \<times> string) list" where
  "candidates eng pattern repl text j =
     (case literal_of pattern of
        Some q \<Rightarrow>
          if plain_repl repl
          then (if prefix q (drop j text) then [(length q, repl)] else [])
          else match_at eng pattern repl text j
      | None \<Rightarrow> match_at eng pattern repl text j)"

text \<open>
  The match taken at position \<open>j\<close>: the first candidate that lies inside the text and,
  when the search must advance, is not empty.
\<close>

definition allowed :: "string \<Rightarrow> nat \<Rightarrow> bool \<Rightarrow> nat \<times> string \<Rightarrow> bool" where
  "allowed text j must_advance c \<longleftrightarrow> j + fst c \<le> length text \<and> \<not> (must_advance \<and> fst c = 0)"

definition match_here :: "(nat \<Rightarrow> (nat \<times> string) list) \<Rightarrow> string \<Rightarrow> nat \<Rightarrow> bool \<Rightarrow> (nat \<times> string) option" where
  "match_here f text j must_advance = find (allowed text j must_advance) (f j)"

text \<open>
  A search from position \<open>j\<close> over the next \<open>k\<close> start positions; only the first one is
  under \<open>must_advance\<close>. It returns the start, the length and the expansion.
\<close>

fun search :: "(nat \<Rightarrow> (nat \<times> string) list) \<Rightarrow> string \<Rightarrow> nat \<Rightarrow> bool \<Rightarrow> nat \<Rightarrow> (nat \<times> nat \<times> string) option" where
  "search f text j must_advance 0 = None"
| "search f text j must_advance (Suc k) =
     (case match_here f text j must_advance of
        Some (n, x) \<Rightarrow> Some (j, n, x)
      | None \<Rightarrow> search f text (Suc j) False k)"

function subx :: "(nat \<Rightarrow> (nat \<times> string) list) \<Rightarrow> string \<Rightarrow> nat \<Rightarrow> bool \<Rightarrow> string" where
  "subx f text i must_advance =
     (case search f text i must_advance (Suc (length text) - i) of
        None \<Rightarrow> drop i text
      | Some (b, n, x) \<Rightarrow> take (b - i) (drop i text) @ x @ subx f text (b + n) (n = 0))"
  by pat_completeness auto
termination
proof (relation "measure (\<lambda>(f, s, i, m). 2 * (length s - i) + (if m then 0 else 1))")
  show "wf (measure (\<lambda>(f, s, i, m). 2 * (length s - i) + (if m then 0 else 1)))"
    by simp
next
  fix f :: "nat \<Rightarrow> (nat \<times> string) list" and s :: string and i :: nat
    and must_advance :: bool and x2 :: "nat \<times> nat \<times> string" and b :: nat
    and y :: "nat \<times> string" and n :: nat and x :: string
  assume "search f s i must_advance (Suc (length s) - i) = Some x2"
    and "(b, y) = x2" and "(n, x) = y"
  then have found: "search f s i must_advance (Suc (length s) - i) = Some (b, n, x)" by simp
  have bounds: "j \<le> b \<and> b + n \<le> length s \<and> \<not> (m \<and> b = j \<and> n = 0)"
    if "search f s j m k = Some (b, n, x)" for j m k
    using that
  proof (induction k arbitrary: j m)
    case 0
    then show ?case by simp
  next
    case (Suc k)
    show ?case
    proof (cases "match_here f s j m")
      case None
      with Suc.prems have "search f s (Suc j) False k = Some (b, n, x)" by simp
      from Suc.IH [OF this] show ?thesis by simp
    next
      case (Some c)
      with Suc.prems have c: "c = (n, x)" and b: "b = j" by (auto split: prod.splits)
      from Some have "allowed s j m c"
        unfolding match_here_def by (auto simp: find_Some_iff)
      with c b show ?thesis by (simp add: allowed_def)
    qed
  qed
  from bounds [OF found]
  show "((f, s, b + n, n = 0), (f, s, i, must_advance))
      \<in> measure (\<lambda>(f, s, i, m). 2 * (length s - i) + (if m then 0 else 1))"
    by (cases must_advance; cases "n = 0"; cases "b = i") auto
qed

declare subx.simps [simp del]

definition re_sub :: "engine \<Rightarrow> string \<Rightarrow> string \<Rightarrow> string \<Rightarrow> error + string" where
  "re_sub eng pattern repl text =
     (case re_error eng pattern repl of
        Some e \<Rightarrow> Inl e
      | None \<Rightarrow> Inr (subx (candidates eng pattern repl text) text 0 False))"

text \<open>
  What the specification calls substituting all occurrences, in terms of the matches:
  from position \<open>i\<close> on, either no position has a match and the rest of the text stays,
  or the text up to the leftmost match stays, the match is replaced by its expansion,
  and the same holds from the end of the match on.
\<close>

inductive replaced_all :: "(nat \<Rightarrow> (nat \<times> string) list) \<Rightarrow> string \<Rightarrow> nat \<Rightarrow> bool \<Rightarrow> string \<Rightarrow> bool"
  for f :: "nat \<Rightarrow> (nat \<times> string) list" and s :: string where
  no_more:
    "(\<forall>j. i \<le> j \<and> j \<le> length s \<longrightarrow> match_here f s j (must_advance \<and> j = i) = None) \<Longrightarrow>
       replaced_all f s i must_advance (drop i s)"
| next_match:
    "i \<le> b \<Longrightarrow>
     (\<forall>j. i \<le> j \<and> j < b \<longrightarrow> match_here f s j (must_advance \<and> j = i) = None) \<Longrightarrow>
     match_here f s b (must_advance \<and> b = i) = Some (n, x) \<Longrightarrow>
     replaced_all f s (b + n) (n = 0) rest \<Longrightarrow>
       replaced_all f s i must_advance (take (b - i) (drop i s) @ x @ rest)"

text \<open>
  The same for a pattern that stands for the non-empty string \<open>p\<close>, in terms of the
  occurrences of \<open>p\<close>: the text is cut at the leftmost occurrence, the occurrence is
  replaced by \<open>r\<close>, and the text after it is treated the same way, until no occurrence
  is left. \<open>sub_all\<close> computes it.
\<close>

fun occurs :: "string \<Rightarrow> string \<Rightarrow> bool" where
  "occurs p [] = (p = [])"
| "occurs p (c # cs) = (prefix p (c # cs) \<or> occurs p cs)"

inductive subst_all_spec :: "string \<Rightarrow> string \<Rightarrow> string \<Rightarrow> string \<Rightarrow> bool"
  for p r :: string where
  rest: "\<not> occurs p t \<Longrightarrow> subst_all_spec p r t t"
| step: "\<not> occurs p (u @ butlast p) \<Longrightarrow> subst_all_spec p r v v' \<Longrightarrow>
         subst_all_spec p r (u @ p @ v) (u @ r @ v')"

function sub_all :: "string \<Rightarrow> string \<Rightarrow> string \<Rightarrow> string" where
  "sub_all p r [] = []"
| "sub_all p r (c # cs) =
     (if p \<noteq> [] \<and> prefix p (c # cs)
      then r @ sub_all p r (drop (length p) (c # cs))
      else c # sub_all p r cs)"
  by pat_completeness auto
termination
  by (relation "measure (\<lambda>(p, r, t). length t)") auto

subsection \<open>Phase 1: \<^verbatim>\<open>apply_changes\<close>\<close>

text \<open>
  The existence test comes first. An append writes at the end of the file and does not
  read it. A replace reads the file in text mode, substitutes in the text read,
  compares the result with the text read, and rewrites the file with the result.
\<close>

definition apply_changes :: "engine \<Rightarrow> change \<Rightarrow> world \<Rightarrow> outcome" where
  "apply_changes other change w =
     (case change ''change_type'' of
        None \<Rightarrow> (Inl (KeyError ''change_type''), w)
      | Some change_type \<Rightarrow>
     (case change ''target_file'' of
        None \<Rightarrow> (Inl (KeyError ''target_file''), w)
      | Some target_file \<Rightarrow>
     (case files w target_file of
        None \<Rightarrow> (Inl (ValueError (''File '' @ target_file @ '' not found'')), w)
      | Some stored \<Rightarrow>
         if change_type = ''append'' then
           (case change ''content'' of
              None \<Rightarrow> (Inl (KeyError ''content''), w)
            | Some text \<Rightarrow>
                (Inr NoneVal, w\<lparr>files := (files w)(target_file \<mapsto> stored @ text)\<rparr>))
         else if change_type = ''replace'' then
           (case change ''search_pattern'' of
              None \<Rightarrow> (Inl (KeyError ''search_pattern''), w)
            | Some search_pattern \<Rightarrow>
           (case change ''replacement'' of
              None \<Rightarrow> (Inl (KeyError ''replacement''), w)
            | Some replacement \<Rightarrow>
           (let content = universal_newlines stored in
            case re_sub other search_pattern replacement content of
              Inl e \<Rightarrow> (Inl e, w)
            | Inr updated_content \<Rightarrow>
                if updated_content = content then
                  (Inl (ValueError (''Search pattern '' @ [QUOTE] @ search_pattern @ [QUOTE]
                          @ '' not found in '' @ target_file)), w)
                else
                  (Inr NoneVal, w\<lparr>files := (files w)(target_file \<mapsto> updated_content)\<rparr>))))
         else (Inl (ValueError (''Unknown change_type: '' @ change_type)), w))))"

text \<open>The loop of \<^verbatim>\<open>execute\<close>: the first exception leaves the loop.\<close>

fun apply_all :: "engine \<Rightarrow> change list \<Rightarrow> world \<Rightarrow> outcome" where
  "apply_all other [] w = (Inr NoneVal, w)"
| "apply_all other (change # changes) w =
     (case apply_changes other change w of
        (Inl e, w') \<Rightarrow> (Inl e, w')
      | (Inr _, w') \<Rightarrow> apply_all other changes w')"

subsection \<open>Phase 2: \<^verbatim>\<open>update_codebase_md\<close>\<close>

definition codebase_md_path :: string where
  "codebase_md_path = ''CODEBASE.md''"

definition header :: string where
  "header = [NL, NL] @ ''## Recent Changes'' @ [NL, NL]"

text \<open>
  The bullets are written one by one into the open file. A change without a
  description raises in the middle of the loop; what was written before it stays in
  the file, which the \<^verbatim>\<open>with\<close> block closes.
\<close>

fun write_bullets :: "change list \<Rightarrow> string \<Rightarrow> (error + retval) \<times> string" where
  "write_bullets [] f = (Inr NoneVal, f)"
| "write_bullets (change # changes) f =
     (case change ''description'' of
        None \<Rightarrow> (Inl (KeyError ''description''), f)
      | Some d \<Rightarrow> write_bullets changes (f @ ''- '' @ d @ [NL]))"

definition update_codebase_md :: "change list \<Rightarrow> world \<Rightarrow> outcome" where
  "update_codebase_md changes w =
     (let old = (case files w codebase_md_path of None \<Rightarrow> [] | Some s \<Rightarrow> s);
          (res, f) = write_bullets changes (old @ header)
      in (res, w\<lparr>files := (files w)(codebase_md_path \<mapsto> f)\<rparr>))"

subsection \<open>Phase 3: \<^verbatim>\<open>commit_changes\<close>\<close>

text \<open>
  The git library is modelled by what the script uses of it: \<^verbatim>\<open>git.Repo\<close> raises
  when the current directory is no repository, \<^verbatim>\<open>index.add\<close> reads every path of
  its argument, raising at the first that is missing, and only then stores the contents
  read in the index, which has one entry per path, and \<^verbatim>\<open>index.commit\<close> appends a
  commit of the index to the history and returns it.
\<close>

fun lookup_all :: "string \<Rightarrow> change list \<Rightarrow> error + string list" where
  "lookup_all k [] = Inr []"
| "lookup_all k (change # changes) =
     (case change k of
        None \<Rightarrow> Inl (KeyError k)
      | Some v \<Rightarrow> (case lookup_all k changes of Inl e \<Rightarrow> Inl e | Inr vs \<Rightarrow> Inr (v # vs)))"

fun join :: "string \<Rightarrow> string list \<Rightarrow> string" where
  "join sep [] = []"
| "join sep [x] = x"
| "join sep (x # y # ys) = x @ sep @ join sep (y # ys)"

definition add_paths :: "change list \<Rightarrow> error + string list" where
  "add_paths changes =
     (case lookup_all ''target_file'' changes of
        Inl e \<Rightarrow> Inl e
      | Inr ts \<Rightarrow> Inr ([codebase_md_path] @ ts))"

definition preamble :: string where
  "preamble = ''Refactorizor script applied with the following changes:'' @ [NL]"

definition commit_message :: "change list \<Rightarrow> error + string" where
  "commit_message changes =
     (case lookup_all ''description'' changes of
        Inl e \<Rightarrow> Inl e
      | Inr ds \<Rightarrow> Inr (preamble @ join [NL] ds))"

fun read_paths :: "string list \<Rightarrow> world \<Rightarrow> error + (string \<times> string) list" where
  "read_paths [] w = Inr []"
| "read_paths (p # ps) w =
     (case files w p of
        None \<Rightarrow> Inl (FileNotFoundError p)
      | Some s \<Rightarrow>
          (case read_paths ps w of Inl e \<Rightarrow> Inl e | Inr es \<Rightarrow> Inr ((p, s) # es)))"

definition index_add :: "string list \<Rightarrow> world \<Rightarrow> outcome" where
  "index_add ps w =
     (case read_paths ps w of
        Inl e \<Rightarrow> (Inl e, w)
      | Inr es \<Rightarrow>
          (Inr NoneVal, w\<lparr>index := fold (\<lambda>(p, s) ix. ix(p \<mapsto> s)) es (index w)\<rparr>))"

definition index_commit :: "string \<Rightarrow> world \<Rightarrow> outcome" where
  "index_commit m w =
     (let c = \<lparr>message = m, tree = index w\<rparr>
      in (Inr (CommitVal c), w\<lparr>commits := commits w @ [c]\<rparr>))"

definition commit_changes :: "change list \<Rightarrow> world \<Rightarrow> outcome" where
  "commit_changes changes w =
     (if \<not> is_repo w then (Inl InvalidGitRepositoryError, w)
      else
        (case add_paths changes of
           Inl e \<Rightarrow> (Inl e, w)
         | Inr ps \<Rightarrow>
        (case index_add ps w of
           (Inl e, w1) \<Rightarrow> (Inl e, w1)
         | (Inr _, w1) \<Rightarrow>
        (case commit_message changes of
           Inl e \<Rightarrow> (Inl e, w1)
         | Inr m \<Rightarrow>
        (case index_commit m w1 of
           (Inl e, w2) \<Rightarrow> (Inl e, w2)
         | (Inr _, w2) \<Rightarrow> (Inr NoneVal, w2))))))"

text \<open>The index after the paths \<open>ps\<close> were staged from the files of \<open>w\<close>.\<close>

definition index_after :: "string list \<Rightarrow> world \<Rightarrow> (string \<rightharpoonup> string)" where
  "index_after ps w = (\<lambda>p. if p \<in> set ps then files w p else index w p)"

subsection \<open>\<^verbatim>\<open>execute\<close>\<close>

definition execute :: "engine \<Rightarrow> change list \<Rightarrow> world \<Rightarrow> outcome" where
  "execute other changes w =
     (case apply_all other changes w of
        (Inl e, w1) \<Rightarrow> (Inl e, w1)
      | (Inr _, w1) \<Rightarrow>
     (case update_codebase_md changes w1 of
        (Inl e, w2) \<Rightarrow> (Inl e, w2)
      | (Inr _, w2) \<Rightarrow>
     (case commit_changes changes w2 of
        (Inl e, w3) \<Rightarrow> (Inl e, w3)
      | (Inr _, w3) \<Rightarrow> (Inr NoneVal, w3))))"

subsection \<open>A sample run\<close>

text \<open>
  The inputs of the end-to-end scenario of the specification, and a few changes that
  fail, for evaluating the definitions above. \<open>no_engine\<close> stands for the part of
  the regular expression engine that the model leaves open; the sample patterns never
  reach it. \<open>c_script\<close> is the first change of the script's own list, with its
  pattern \<open>script_pattern\<close> and its replacement, and \<open>script_stored\<close> a file for it
  with two lines to change, the first ending in CR LF.
\<close>

definition no_engine :: engine where
  "no_engine = \<lparr>compile_error = (\<lambda>p r. Some (ReError p)), match_at = (\<lambda>p r s j. [])\<rparr>"

definition w0 :: world where
  "w0 = \<lparr>files = map_of [(''a.txt'', ''foo foo''), (''b.txt'', []), (''t.txt'', ''aab'')],
          is_repo = True, index = Map.empty, commits = []\<rparr>"

definition w_hello :: world where
  "w_hello = w0\<lparr>files := (files w0)(''b.txt'' \<mapsto> [NL] @ ''hello'' @ [NL])\<rparr>"

definition w_both :: world where
  "w_both = w_hello\<lparr>files := (files w_hello)(''a.txt'' \<mapsto> ''bar bar'')\<rparr>"

definition w_logged :: world where
  "w_logged = w_both\<lparr>files := (files w_both)(''CODEBASE.md'' \<mapsto>
     [NL, NL] @ ''## Recent Changes'' @ [NL, NL] @ ''- say hello'' @ [NL]
     @ ''- foo to bar'' @ [NL])\<rparr>"

definition w_done :: world where
  "w_done = w_logged\<lparr>index := index_after [''CODEBASE.md'', ''b.txt'', ''a.txt''] w_logged,
     commits := commits w_logged @
       [\<lparr>message = preamble @ ''say hello'' @ [NL] @ ''foo to bar'',
         tree = index_after [''CODEBASE.md'', ''b.txt'', ''a.txt''] w_logged\<rparr>]\<rparr>"

definition w_x :: world where
  "w_x = w0\<lparr>files := (files w0)(''b.txt'' \<mapsto> ''x'')\<rparr>"

definition w_doc :: world where
  "w_doc = w0\<lparr>files := (files w0)(''CODEBASE.md'' \<mapsto> header)\<rparr>"

definition c_app :: change where
  "c_app = map_of [(''description'', ''say hello''), (''target_file'', ''b.txt''),
     (''content'', [NL] @ ''hello'' @ [NL]), (''change_type'', ''append'')]"

definition c_rep :: change where
  "c_rep = map_of [(''description'', ''foo to bar''), (''target_file'', ''a.txt''),
     (''search_pattern'', ''foo''), (''replacement'', ''bar''), (''change_type'', ''replace'')]"

definition c_missing :: change where
  "c_missing = map_of [(''description'', ''patch a missing file''), (''target_file'', ''z.txt''),
     (''content'', ''x''), (''change_type'', ''append'')]"

definition c_nomatch :: change where
  "c_nomatch = map_of [(''description'', ''qux to bar''), (''target_file'', ''a.txt''),
     (''search_pattern'', ''qux''), (''replacement'', ''bar''), (''change_type'', ''replace'')]"

definition c_delete :: change where
  "c_delete = map_of [(''description'', ''remove a file''), (''target_file'', ''a.txt''),
     (''change_type'', ''delete'')]"

definition c_ab :: change where
  "c_ab = map_of [(''description'', ''ab to b''), (''target_file'', ''t.txt''),
     (''search_pattern'', ''ab''), (''replacement'', ''b''), (''change_type'', ''replace'')]"

definition c_nodesc :: change where
  "c_nodesc = map_of [(''target_file'', ''b.txt''), (''content'', ''x''),
     (''change_type'', ''append'')]"


definition w_crlf :: world where
  "w_crlf = \<lparr>files = map_of [(''a.txt'', ''foo'' @ [CR, NL] @ ''foo'' @ [CR, NL]),
              (''u.txt'', ''aabb'')],
            is_repo = True, index = Map.empty, commits = []\<rparr>"

definition script_pattern :: string where
  "script_pattern = ''input_data = request'' @ [BACKSLASH] @ ''.json'' @ [BACKSLASH] @ ''[''
     @ [QUOTE] @ ''message'' @ [QUOTE] @ [BACKSLASH] @ '']''"

definition script_literal :: string where
  "script_literal = ''input_data = request.json['' @ [QUOTE] @ ''message'' @ [QUOTE] @ '']''"

definition script_repl :: string where
  "script_repl = ''input_data = request.json.get('' @ [QUOTE] @ ''message'' @ [QUOTE] @ '')'' @ [NL]
     @ ''if not input_data or not isinstance(input_data, str):'' @ [NL]
     @ ''    return jsonify({'' @ [QUOTE] @ ''error'' @ [QUOTE] @ '': '' @ [QUOTE]
     @ ''Invalid input data'' @ [QUOTE] @ ''}), 400'' @ [NL]"

definition c_script :: change where
  "c_script = map_of [(''description'', ''Add error handling in chat_routes.py''),
     (''target_file'', ''backend/app/api/chat_routes.py''),
     (''search_pattern'', script_pattern), (''replacement'', script_repl),
     (''change_type'', ''replace'')]"

definition script_stored :: string where
  "script_stored = ''    '' @ script_literal @ [CR, NL] @ ''    '' @ script_literal @ [NL]"

definition script_read :: string where
  "script_read = ''    '' @ script_literal @ [NL] @ ''    '' @ script_literal @ [NL]"

definition script_updated :: string where
  "script_updated = ''    '' @ script_repl @ [NL] @ ''    '' @ script_repl @ [NL]"

definition w_script :: world where
  "w_script = \<lparr>files = map_of [(''backend/app/api/chat_routes.py'', script_stored)],
              is_repo = True, index = Map.empty, commits = []\<rparr>"

definition c_xy :: change where
  "c_xy = map_of [(''description'', ''join two lines''), (''target_file'', ''b.txt''),
     (''search_pattern'', ''x'' @ [NL] @ ''y''), (''replacement'', ''z''),
     (''change_type'', ''replace'')]"

definition w_xy :: world where
  "w_xy = \<lparr>files = map_of [(''b.txt'', ''x'' @ [CR, NL] @ ''y'')],
          is_repo = True, index = Map.empty, commits = []\<rparr>"

section \<open>Facts about the phases\<close>

lemma search_bounds:
  "search f s j m k = Some (b, n, x) \<Longrightarrow>
     j \<le> b \<and> b + n \<le> length s \<and> \<not> (m \<and> b = j \<and> n = 0)"
proof (induction k arbitrary: j m)
  case 0
  then show ?case by simp
next
  case (Suc k)
  show ?case
  proof (cases "match_here f s j m")
    case None
    with Suc.prems have "search f s (Suc j) False k = Some (b, n, x)" by simp
    from Suc.IH [OF this] show ?thesis by simp
  next
    case (Some c)
    with Suc.prems have c: "c = (n, x)" and b: "b = j" by (auto split: prod.splits)
    from Some have "allowed s j m c"
      unfolding match_here_def by (auto simp: find_Some_iff)
    with c b show ?thesis by (simp add: allowed_def)
  qed
qed

lemma apply_changes_error_state:
  "apply_changes other change w = (Inl e, w') \<Longrightarrow> w' = w"
  by (auto simp: apply_changes_def Let_def split: option.splits if_splits sum.splits)

lemma apply_changes_repo:
  "apply_changes other change w = (res, w') \<Longrightarrow>
     is_repo w' = is_repo w \<and> index w' = index w \<and> commits w' = commits w"
  by (auto simp: apply_changes_def Let_def split: option.splits if_splits sum.splits)

lemma apply_all_repo:
  "apply_all other changes w = (res, w') \<Longrightarrow>
     is_repo w' = is_repo w \<and> index w' = index w \<and> commits w' = commits w"
proof (induction changes arbitrary: w)
  case Nil
  then show ?case by simp
next
  case (Cons c cs)
  obtain r1 w1 where a: "apply_changes other c w = (r1, w1)"
    by (cases "apply_changes other c w")
  note keep = apply_changes_repo [OF a]
  show ?case
  proof (cases r1)
    case (Inl e)
    with Cons.prems a keep show ?thesis by simp
  next
    case (Inr v)
    with Cons.prems a have "apply_all other cs w1 = (res, w')" by simp
    from Cons.IH [OF this] keep show ?thesis by simp
  qed
qed

lemma apply_all_append:
  "apply_all other (pre @ post) w =
     (case apply_all other pre w of
        (Inl e, w') \<Rightarrow> (Inl e, w')
      | (Inr v, w') \<Rightarrow> apply_all other post w')"
  by (induction pre arbitrary: w) (auto split: prod.splits sum.splits)

lemma execute_apply_error:
  assumes "apply_all other pre w = (Inr v, w1)"
    and "apply_changes other change w1 = (Inl e, w2)"
  shows "execute other (pre @ change # post) w = (Inl e, w1)"
proof -
  have "w2 = w1" using assms(2) by (rule apply_changes_error_state)
  with assms have "apply_all other (pre @ change # post) w = (Inl e, w1)"
    by (simp add: apply_all_append)
  then show ?thesis by (simp add: execute_def)
qed

lemma update_codebase_md_repo:
  "update_codebase_md changes w = (res, w') \<Longrightarrow>
     is_repo w' = is_repo w \<and> index w' = index w \<and> commits w' = commits w"
  by (auto simp: update_codebase_md_def Let_def split: prod.splits)

lemma write_bullets_ok:
  "\<forall>c \<in> set changes. c ''description'' \<noteq> None \<Longrightarrow>
     write_bullets changes f =
       (Inr NoneVal, f @ concat (map (\<lambda>c. ''- '' @ the (c ''description'') @ [NL]) changes))"
  by (induction changes arbitrary: f) auto

lemma lookup_all_ok:
  "\<forall>c \<in> set changes. c k \<noteq> None \<Longrightarrow>
     lookup_all k changes = Inr (map (\<lambda>c. the (c k)) changes)"
  by (induction changes) auto

lemma read_paths_ok:
  "set ps \<subseteq> dom (files w) \<Longrightarrow>
     read_paths ps w = Inr (map (\<lambda>p. (p, the (files w p))) ps)"
  by (induction ps) auto

lemma fold_stage:
  "set ps \<subseteq> dom (files w) \<Longrightarrow>
     fold (\<lambda>(p, s) ix. ix(p \<mapsto> s)) (map (\<lambda>p. (p, the (files w p))) ps) ix0 =
       (\<lambda>q. if q \<in> set ps then files w q else ix0 q)"
proof (induction ps arbitrary: ix0)
  case Nil
  then show ?case by simp
next
  case (Cons p ps)
  then obtain s where s: "files w p = Some s" by auto
  from Cons.prems have "set ps \<subseteq> dom (files w)" by simp
  from Cons.IH [OF this, of "ix0(p \<mapsto> s)"] s show ?case
    by (auto simp: fun_eq_iff)
qed

lemma index_add_ok:
  "set ps \<subseteq> dom (files w) \<Longrightarrow>
     index_add ps w = (Inr NoneVal, w\<lparr>index := index_after ps w\<rparr>)"
  by (simp add: index_add_def read_paths_ok fold_stage index_after_def)

lemma index_add_repo:
  "index_add ps w = (res, w') \<Longrightarrow>
     files w' = files w \<and> is_repo w' = is_repo w \<and> commits w' = commits w"
  by (auto simp: index_add_def split: sum.splits)

lemma commit_changes_commits:
  assumes "commit_changes changes w = (Inr v, w')"
  shows "v = NoneVal \<and> (\<exists>c. commits w' = commits w @ [c])"
proof -
  from assms obtain ps where ps: "add_paths changes = Inr ps" and repo: "is_repo w"
    by (auto simp: commit_changes_def split: if_splits sum.splits)
  obtain r1 w1 where a: "index_add ps w = (r1, w1)" by (cases "index_add ps w")
  from index_add_repo [OF a] have c1: "commits w1 = commits w" by simp
  from assms ps repo a show ?thesis
    by (auto simp: commit_changes_def index_commit_def Let_def c1 split: sum.splits)
qed

section \<open>Facts about the substitution\<close>

lemma search_None_iff:
  "search f s j m k = None \<longleftrightarrow>
     (\<forall>j'. j \<le> j' \<and> j' < j + k \<longrightarrow> match_here f s j' (m \<and> j' = j) = None)"
proof (induction k arbitrary: j m)
  case 0
  then show ?case by auto
next
  case (Suc k)
  show ?case
  proof (cases "match_here f s j m")
    case (Some c)
    then have "search f s j m (Suc k) \<noteq> None" by (simp split: prod.splits)
    moreover have "\<not> (\<forall>j'. j \<le> j' \<and> j' < j + Suc k \<longrightarrow> match_here f s j' (m \<and> j' = j) = None)"
    proof
      assume "\<forall>j'. j \<le> j' \<and> j' < j + Suc k \<longrightarrow> match_here f s j' (m \<and> j' = j) = None"
      moreover have "j \<le> j \<and> j < j + Suc k" by simp
      ultimately have "match_here f s j (m \<and> j = j) = None" by blast
      with Some show False by simp
    qed
    ultimately show ?thesis by blast
  next
    case None
    have "(\<forall>j'. j \<le> j' \<and> j' < j + Suc k \<longrightarrow> match_here f s j' (m \<and> j' = j) = None) \<longleftrightarrow>
          (\<forall>j'. Suc j \<le> j' \<and> j' < Suc j + k \<longrightarrow> match_here f s j' False = None)"
    proof (intro iffI allI impI)
      fix j' assume a: "\<forall>j'. j \<le> j' \<and> j' < j + Suc k \<longrightarrow> match_here f s j' (m \<and> j' = j) = None"
        and b: "Suc j \<le> j' \<and> j' < Suc j + k"
      from b have "j \<le> j' \<and> j' < j + Suc k" by simp
      with a have "match_here f s j' (m \<and> j' = j) = None" by blast
      with b show "match_here f s j' False = None" by simp
    next
      fix j' assume a: "\<forall>j'. Suc j \<le> j' \<and> j' < Suc j + k \<longrightarrow> match_here f s j' False = None"
        and b: "j \<le> j' \<and> j' < j + Suc k"
      show "match_here f s j' (m \<and> j' = j) = None"
      proof (cases "j' = j")
        case True
        with None show ?thesis by simp
      next
        case False
        with a b show ?thesis by simp
      qed
    qed
    with None Suc.IH [of "Suc j" False] show ?thesis by simp
  qed
qed

lemma search_Some_iff:
  "search f s j m k = Some (b, n, x) \<longleftrightarrow>
     j \<le> b \<and> b < j + k \<and>
     (\<forall>j'. j \<le> j' \<and> j' < b \<longrightarrow> match_here f s j' (m \<and> j' = j) = None) \<and>
     match_here f s b (m \<and> b = j) = Some (n, x)"
proof (induction k arbitrary: j m)
  case 0
  then show ?case by simp
next
  case (Suc k)
  show ?case
  proof (cases "match_here f s j m")
    case (Some c)
    show ?thesis
    proof
      assume "search f s j m (Suc k) = Some (b, n, x)"
      with Some show "j \<le> b \<and> b < j + Suc k \<and>
        (\<forall>j'. j \<le> j' \<and> j' < b \<longrightarrow> match_here f s j' (m \<and> j' = j) = None) \<and>
        match_here f s b (m \<and> b = j) = Some (n, x)"
        by (auto split: prod.splits)
    next
      assume a: "j \<le> b \<and> b < j + Suc k \<and>
        (\<forall>j'. j \<le> j' \<and> j' < b \<longrightarrow> match_here f s j' (m \<and> j' = j) = None) \<and>
        match_here f s b (m \<and> b = j) = Some (n, x)"
      have "b = j"
      proof (rule ccontr)
        assume "b \<noteq> j"
        with a have "j \<le> j \<and> j < b" by simp
        with a have "match_here f s j (m \<and> j = j) = None" by blast
        with Some show False by simp
      qed
      with a Some show "search f s j m (Suc k) = Some (b, n, x)" by simp
    qed
  next
    case None
    have "(j \<le> b \<and> b < j + Suc k \<and>
        (\<forall>j'. j \<le> j' \<and> j' < b \<longrightarrow> match_here f s j' (m \<and> j' = j) = None) \<and>
        match_here f s b (m \<and> b = j) = Some (n, x)) \<longleftrightarrow>
       (Suc j \<le> b \<and> b < Suc j + k \<and>
        (\<forall>j'. Suc j \<le> j' \<and> j' < b \<longrightarrow> match_here f s j' False = None) \<and>
        match_here f s b False = Some (n, x))"
      (is "?L \<longleftrightarrow> ?R")
    proof
      assume l: ?L
      have "b \<noteq> j" using l None by auto
      with l have 1: "Suc j \<le> b \<and> b < Suc j + k" by simp
      have 2: "\<forall>j'. Suc j \<le> j' \<and> j' < b \<longrightarrow> match_here f s j' False = None"
      proof (intro allI impI)
        fix j' assume c: "Suc j \<le> j' \<and> j' < b"
        then have "j \<le> j' \<and> j' < b" by simp
        with l have "match_here f s j' (m \<and> j' = j) = None" by blast
        with c show "match_here f s j' False = None" by simp
      qed
      from l \<open>b \<noteq> j\<close> have 3: "match_here f s b False = Some (n, x)" by simp
      from 1 2 3 show ?R by simp
    next
      assume r: ?R
      then have bj: "b \<noteq> j" by simp
      have 2: "\<forall>j'. j \<le> j' \<and> j' < b \<longrightarrow> match_here f s j' (m \<and> j' = j) = None"
      proof (intro allI impI)
        fix j' assume c: "j \<le> j' \<and> j' < b"
        show "match_here f s j' (m \<and> j' = j) = None"
        proof (cases "j' = j")
          case True
          with None show ?thesis by simp
        next
          case False
          with r c show ?thesis by simp
        qed
      qed
      from r bj 2 show ?L by simp
    qed
    with None Suc.IH [of "Suc j" False] show ?thesis by simp
  qed
qed

lemma subx_replaced_all: "replaced_all f s i m (subx f s i m)"
proof (induction f s i m rule: subx.induct)
  case (1 f s i m)
  show ?case
  proof (cases "search f s i m (Suc (length s) - i)")
    case None
    then have "\<forall>j. i \<le> j \<and> j \<le> length s \<longrightarrow> match_here f s j (m \<and> j = i) = None"
      by (auto simp: search_None_iff)
    then have "replaced_all f s i m (drop i s)" by (rule replaced_all.no_more)
    with None show ?thesis by (simp add: subx.simps)
  next
    case (Some t)
    obtain b n x where t: "t = (b, n, x)" by (cases t)
    with Some have sr: "search f s i m (Suc (length s) - i) = Some (b, n, x)" by simp
    then have c: "i \<le> b"
      "\<forall>j. i \<le> j \<and> j < b \<longrightarrow> match_here f s j (m \<and> j = i) = None"
      "match_here f s b (m \<and> b = i) = Some (n, x)"
      by (simp_all add: search_Some_iff)
    have "replaced_all f s (b + n) (n = 0) (subx f s (b + n) (n = 0))"
      using "1.IH" [OF sr refl refl] .
    from replaced_all.next_match [OF c this] sr show ?thesis
      by (simp add: subx.simps)
  qed
qed

lemma replaced_all_unique:
  "replaced_all f s i m out \<Longrightarrow> out = subx f s i m"
proof (induction rule: replaced_all.induct)
  case (no_more i m)
  then have "search f s i m (Suc (length s) - i) = None"
    by (auto simp: search_None_iff)
  then show ?case by (simp add: subx.simps)
next
  case (next_match i b m n x rest)
  from next_match(3) have "allowed s b (m \<and> b = i) (n, x)"
    unfolding match_here_def by (auto simp: find_Some_iff)
  then have "b + n \<le> length s" by (simp add: allowed_def)
  with next_match(1,2,3) have "search f s i m (Suc (length s) - i) = Some (b, n, x)"
    by (simp add: search_Some_iff)
  with next_match(5) show ?case by (simp add: subx.simps)
qed


lemma occurs_length: "occurs p t \<Longrightarrow> length p \<le> length t"
  by (induction t) (auto dest: prefix_length_le)

lemma sub_all_no_occurrence: "\<not> occurs p t \<Longrightarrow> sub_all p r t = t"
  by (induction t) auto

lemma not_occurs_butlast: "p \<noteq> [] \<Longrightarrow> \<not> occurs p (butlast p)"
  using occurs_length [of p "butlast p"] by (cases p) auto

lemma prefix_before_end:
  assumes "p \<noteq> []" and "prefix p (u @ p @ v)" and "u \<noteq> []"
  shows "prefix p (u @ butlast p)"
proof -
  have "u @ p @ v = (u @ butlast p) @ (last p # v)"
    using assms(1) by simp
  then have "prefix (u @ butlast p) (u @ p @ v)"
    by (metis prefixI)
  moreover have "length p \<le> length (u @ butlast p)"
    using assms(1,3) by (cases u) auto
  ultimately show ?thesis
    using assms(2) by (rule_tac prefix_length_prefix)
qed

lemma sub_all_leftmost:
  "p \<noteq> [] \<Longrightarrow> \<not> occurs p (u @ butlast p) \<Longrightarrow>
     sub_all p r (u @ p @ v) = u @ r @ sub_all p r v"
proof (induction u)
  case Nil
  then show ?case by (cases p) auto
next
  case (Cons c u)
  from Cons.prems have no: "\<not> prefix p ((c # u) @ butlast p)"
    and rest: "\<not> occurs p (u @ butlast p)" by auto
  have "\<not> prefix p ((c # u) @ p @ v)"
    using prefix_before_end [OF Cons.prems(1), of "c # u" v] no by blast
  then show ?case using Cons.IH [OF Cons.prems(1) rest] by simp
qed

lemma subst_all_spec_Cons:
  assumes "subst_all_spec p r t t'" and "\<not> prefix p (c # t)"
  shows "subst_all_spec p r (c # t) (c # t')"
  using assms(1)
proof (cases rule: subst_all_spec.cases)
  case rest
  with assms(2) show ?thesis by (auto intro: subst_all_spec.rest)
next
  case (step u v v')
  have "p \<noteq> []" using assms(2) by auto
  have "\<not> prefix p ((c # u) @ butlast p)"
  proof
    assume "prefix p ((c # u) @ butlast p)"
    moreover have "prefix ((c # u) @ butlast p) ((c # u) @ p @ v)"
      using \<open>p \<noteq> []\<close> by (metis append_butlast_last_id append.assoc prefixI)
    ultimately have "prefix p ((c # u) @ p @ v)" by (rule prefix_order.trans)
    with assms(2) step show False by simp
  qed
  with step have "\<not> occurs p ((c # u) @ butlast p)" by simp
  from subst_all_spec.step [OF this step(4)] step show ?thesis by simp
qed

lemma subst_all_spec_sub_all: "p \<noteq> [] \<Longrightarrow> subst_all_spec p r t (sub_all p r t)"
proof (induction p r t rule: sub_all.induct)
  case (1 p r)
  then show ?case by (simp add: subst_all_spec.rest)
next
  case (2 p r c cs)
  show ?case
  proof (cases "prefix p (c # cs)")
    case True
    then have eq: "c # cs = [] @ p @ drop (length p) (c # cs)"
      by (metis append_Nil append_eq_conv_conj prefix_def)
    have "subst_all_spec p r (drop (length p) (c # cs)) (sub_all p r (drop (length p) (c # cs)))"
      using 2 True by simp
    moreover have "\<not> occurs p ([] @ butlast p)"
      using not_occurs_butlast [OF 2(3)] by simp
    ultimately have "subst_all_spec p r ([] @ p @ drop (length p) (c # cs))
        ([] @ r @ sub_all p r (drop (length p) (c # cs)))"
      by (rule subst_all_spec.step [rotated])
    then show ?thesis using True 2(3) eq by simp
  next
    case False
    with 2 have "subst_all_spec p r cs (sub_all p r cs)" by simp
    from subst_all_spec_Cons [OF this False] False show ?thesis by simp
  qed
qed

lemma subst_all_spec_unique:
  "subst_all_spec p r t t' \<Longrightarrow> p \<noteq> [] \<Longrightarrow> t' = sub_all p r t"
  by (induction rule: subst_all_spec.induct)
     (simp_all add: sub_all_no_occurrence sub_all_leftmost)




lemma match_here_literal:
  assumes "q \<noteq> []"
  shows "match_here (\<lambda>j. if prefix q (drop j s) then [(length q, r)] else []) s j m =
           (if prefix q (drop j s) then Some (length q, r) else None)"
proof (cases "prefix q (drop j s)")
  case False
  then show ?thesis by (simp add: match_here_def)
next
  case True
  then have "length q \<le> length s - j" using prefix_length_le by fastforce
  moreover from this assms have "j < length s" by (cases q) auto
  ultimately have "j + length q \<le> length s" by simp
  with True assms show ?thesis by (simp add: match_here_def allowed_def)
qed

lemma sub_all_none:
  "q \<noteq> [] \<Longrightarrow> (\<forall>j. i \<le> j \<and> j \<le> length s \<longrightarrow> \<not> prefix q (drop j s)) \<Longrightarrow>
     sub_all q r (drop i s) = drop i s"
proof (induction "length s - i" arbitrary: i)
  case 0
  then show ?case by simp
next
  case (Suc k)
  then have lt: "i < length s" by simp
  then have d: "drop i s = s ! i # drop (Suc i) s" by (simp add: Cons_nth_drop_Suc)
  from Suc.prems lt have np: "\<not> prefix q (drop i s)" by simp
  have "sub_all q r (drop (Suc i) s) = drop (Suc i) s"
  proof (rule Suc.hyps(1))
    show "k = length s - Suc i" using Suc.hyps(2) by simp
    show "q \<noteq> []" by fact
    show "\<forall>j. Suc i \<le> j \<and> j \<le> length s \<longrightarrow> \<not> prefix q (drop j s)"
      using Suc.prems(2) by simp
  qed
  with np d show ?case by simp
qed

lemma sub_all_skip:
  "q \<noteq> [] \<Longrightarrow> i \<le> b \<Longrightarrow>
   (\<forall>j. i \<le> j \<and> j < b \<longrightarrow> \<not> prefix q (drop j s)) \<Longrightarrow> prefix q (drop b s) \<Longrightarrow>
     sub_all q r (drop i s) =
       take (b - i) (drop i s) @ r @ sub_all q r (drop (b + length q) s)"
proof (induction "b - i" arbitrary: i)
  case 0
  then have bi: "b = i" by simp
  from 0(5) obtain v where v: "drop b s = q @ v" by (auto simp: prefix_def)
  then have "drop (length q) (drop b s) = v" by simp
  then have v': "drop (b + length q) s = v" by (simp add: add.commute)
  have "sub_all q r ([] @ q @ v) = [] @ r @ sub_all q r v"
    using 0(2) not_occurs_butlast [OF 0(2)] by (intro sub_all_leftmost) simp_all
  with v v' bi show ?case by simp
next
  case (Suc k)
  then have ib: "i < b" by simp
  from Suc.prems(1,4) have "drop b s \<noteq> []" by (auto simp: prefix_def)
  then have "b < length s" by simp
  with ib have lt: "i < length s" by simp
  then have d: "drop i s = s ! i # drop (Suc i) s" by (simp add: Cons_nth_drop_Suc)
  from Suc.prems(3) ib have np: "\<not> prefix q (drop i s)" by simp
  have ih: "sub_all q r (drop (Suc i) s) =
       take (b - Suc i) (drop (Suc i) s) @ r @ sub_all q r (drop (b + length q) s)"
  proof (rule Suc.hyps(1))
    show "k = b - Suc i" using Suc.hyps(2) by simp
    show "q \<noteq> []" by fact
    show "Suc i \<le> b" using ib by simp
    show "\<forall>j. Suc i \<le> j \<and> j < b \<longrightarrow> \<not> prefix q (drop j s)" using Suc.prems(3) by simp
    show "prefix q (drop b s)" by fact
  qed
  have "b - i = Suc (b - Suc i)" using ib by simp
  with np d ih show ?case by simp
qed

lemma subx_literal:
  assumes "q \<noteq> []"
  shows "subx (\<lambda>j. if prefix q (drop j s) then [(length q, r)] else []) s i m =
           sub_all q r (drop i s)"
proof (induction "length s - i" arbitrary: i m rule: less_induct)
  case less
  let ?f = "\<lambda>j. if prefix q (drop j s) then [(length q, r)] else []"
  note mh = match_here_literal [OF assms, of s r]
  show ?case
  proof (cases "search ?f s i m (Suc (length s) - i)")
    case None
    have "\<forall>j. i \<le> j \<and> j \<le> length s \<longrightarrow> \<not> prefix q (drop j s)"
    proof (intro allI impI)
      fix j assume j: "i \<le> j \<and> j \<le> length s"
      then have "i \<le> j \<and> j < i + (Suc (length s) - i)" by simp
      with None have "match_here ?f s j (m \<and> j = i) = None"
        unfolding search_None_iff by blast
      then show "\<not> prefix q (drop j s)" by (simp add: mh split: if_splits)
    qed
    from sub_all_none [OF assms this] None show ?thesis
      by (simp add: subx.simps)
  next
    case (Some t)
    obtain b n x where t: "t = (b, n, x)" by (cases t)
    with Some have sr: "search ?f s i m (Suc (length s) - i) = Some (b, n, x)" by simp
    then have ib: "i \<le> b"
      and before: "\<forall>j. i \<le> j \<and> j < b \<longrightarrow> match_here ?f s j (m \<and> j = i) = None"
      and at: "match_here ?f s b (m \<and> b = i) = Some (n, x)"
      by (simp_all add: search_Some_iff)
    from at have pb: "prefix q (drop b s)" and n: "n = length q" and x: "x = r"
      by (simp_all add: mh split: if_splits)
    have nb: "\<forall>j. i \<le> j \<and> j < b \<longrightarrow> \<not> prefix q (drop j s)"
    proof (intro allI impI)
      fix j assume "i \<le> j \<and> j < b"
      with before have "match_here ?f s j (m \<and> j = i) = None" by blast
      then show "\<not> prefix q (drop j s)" by (simp add: mh split: if_splits)
    qed
    from search_bounds [OF sr] n have "b + length q \<le> length s" by simp
    with ib assms have "length s - (b + length q) < length s - i" by (cases q) auto
    from less [OF this] have ih: "subx ?f s (b + length q) False =
        sub_all q r (drop (b + length q) s)" .
    from sub_all_skip [OF assms ib nb pb, of r] sr n x ih assms show ?thesis
      by (simp add: subx.simps)
  qed
qed

lemma re_sub_literal:
  assumes "literal_of pattern = Some q" and "q \<noteq> []" and "plain_repl repl"
  shows "re_sub eng pattern repl s = Inr (sub_all q repl s)"
proof -
  have "candidates eng pattern repl s =
      (\<lambda>j. if prefix q (drop j s) then [(length q, repl)] else [])"
    using assms by (simp add: candidates_def fun_eq_iff)
  moreover have "re_error eng pattern repl = None"
    using assms by (simp add: re_error_def)
  ultimately show ?thesis
    using subx_literal [OF assms(2), of s repl 0 False] by (simp add: re_sub_def)
qed





section \<open>The sample run, evaluated\<close>

lemma sample_literals:
  "literal_of ''foo'' = Some ''foo''" "literal_of ''qux'' = Some ''qux''"
  "literal_of ''ab'' = Some ''ab''" "plain_repl ''bar''" "plain_repl ''b''" "plain_repl []"
  by (simp_all add: special_chars_def BACKSLASH_def plain_repl_def)

lemma script_pattern_literal: "literal_of script_pattern = Some script_literal"
  by (simp add: script_pattern_def script_literal_def special_chars_def BACKSLASH_def
      QUOTE_def unescape_def ascii_letters_def digits_def NL_def CR_def TAB_def)

lemma sample_subs:
  "re_sub eng ''foo'' ''bar'' ''foo foo'' = Inr ''bar bar''"
  "re_sub eng ''qux'' ''bar'' ''foo foo'' = Inr ''foo foo''"
  "re_sub eng ''ab'' ''b'' ''aab'' = Inr ''ab''"
  "re_sub eng ''ab'' ''b'' ''ab'' = Inr ''b''"
  "re_sub eng ''ab'' [] ''aabb'' = Inr ''ab''"
  "re_sub eng ''ab'' [] ''ab'' = Inr []"
  "re_sub eng ''foo'' ''bar'' ''bar bar'' = Inr ''bar bar''"
  "re_sub eng ''foo'' ''bar'' (''foo'' @ [NL] @ ''foo'' @ [NL]) = Inr (''bar'' @ [NL] @ ''bar'' @ [NL])"
  "re_sub eng ''qux'' ''bar'' (''foo'' @ [NL] @ ''foo'' @ [NL]) = Inr (''foo'' @ [NL] @ ''foo'' @ [NL])"
proof -
  have foo: "re_sub eng ''foo'' ''bar'' t = Inr (sub_all ''foo'' ''bar'' t)" for t
    by (rule re_sub_literal [OF sample_literals(1) _ sample_literals(4)]) simp
  have qux: "re_sub eng ''qux'' ''bar'' t = Inr (sub_all ''qux'' ''bar'' t)" for t
    by (rule re_sub_literal [OF sample_literals(2) _ sample_literals(4)]) simp
  have ab: "re_sub eng ''ab'' ''b'' t = Inr (sub_all ''ab'' ''b'' t)" for t
    by (rule re_sub_literal [OF sample_literals(3) _ sample_literals(5)]) simp
  have cut: "re_sub eng ''ab'' [] t = Inr (sub_all ''ab'' [] t)" for t
    by (rule re_sub_literal [OF sample_literals(3) _ sample_literals(6)]) simp
  show "re_sub eng ''foo'' ''bar'' ''foo foo'' = Inr ''bar bar''"
    "re_sub eng ''qux'' ''bar'' ''foo foo'' = Inr ''foo foo''"
    "re_sub eng ''ab'' ''b'' ''aab'' = Inr ''ab''"
    "re_sub eng ''ab'' ''b'' ''ab'' = Inr ''b''"
    "re_sub eng ''ab'' [] ''aabb'' = Inr ''ab''"
    "re_sub eng ''ab'' [] ''ab'' = Inr []"
    "re_sub eng ''foo'' ''bar'' ''bar bar'' = Inr ''bar bar''"
    "re_sub eng ''foo'' ''bar'' (''foo'' @ [NL] @ ''foo'' @ [NL]) = Inr (''bar'' @ [NL] @ ''bar'' @ [NL])"
    "re_sub eng ''qux'' ''bar'' (''foo'' @ [NL] @ ''foo'' @ [NL]) = Inr (''foo'' @ [NL] @ ''foo'' @ [NL])"
    by (simp_all add: foo qux ab cut NL_def)
qed

lemma commit_changes_ok:
  assumes "is_repo w"
    and "\<forall>c \<in> set changes. c ''target_file'' \<noteq> None \<and> c ''description'' \<noteq> None"
    and "\<forall>c \<in> set changes. the (c ''target_file'') \<in> dom (files w)"
    and "codebase_md_path \<in> dom (files w)"
  shows "commit_changes changes w =
           (Inr NoneVal,
            w\<lparr>index := index_after (codebase_md_path # map (\<lambda>c. the (c ''target_file'')) changes) w,
              commits := commits w @
                [\<lparr>message = preamble
                     @ join [NL] (map (\<lambda>c. the (c ''description'')) changes),
                  tree = index_after
                     (codebase_md_path # map (\<lambda>c. the (c ''target_file'')) changes) w\<rparr>]\<rparr>)"
proof -
  let ?ps = "codebase_md_path # map (\<lambda>c. the (c ''target_file'')) changes"
  from assms(2) have t: "lookup_all ''target_file'' changes =
      Inr (map (\<lambda>c. the (c ''target_file'')) changes)"
    by (intro lookup_all_ok) simp
  from assms(2) have d: "lookup_all ''description'' changes =
      Inr (map (\<lambda>c. the (c ''description'')) changes)"
    by (intro lookup_all_ok) simp
  have p: "add_paths changes = Inr ?ps"
    using t by (simp add: add_paths_def)
  have sub: "set ?ps \<subseteq> dom (files w)"
    using assms(3,4) by auto
  have a: "index_add ?ps w = (Inr NoneVal, w\<lparr>index := index_after ?ps w\<rparr>)"
    using sub by (rule index_add_ok)
  show ?thesis
    using assms(1) p a d
    by (simp add: commit_changes_def commit_message_def index_commit_def Let_def)
qed


lemma sample_reads:
  "universal_newlines ''foo foo'' = ''foo foo''"
  "universal_newlines ''aab'' = ''aab''"
  "universal_newlines ''aabb'' = ''aabb''"
  "universal_newlines ''ab'' = ''ab''"
  "universal_newlines (''foo'' @ [CR, NL] @ ''foo'' @ [CR, NL]) = ''foo'' @ [NL] @ ''foo'' @ [NL]"
  by (simp_all add: CR_def NL_def)

lemma sample_steps:
  "apply_all no_engine [c_app] w0 = (Inr NoneVal, w_hello)"
  "apply_all no_engine [c_rep] w_hello = (Inr NoneVal, w_both)"
  "update_codebase_md [c_app, c_rep] w_both = (Inr NoneVal, w_logged)"
  "commit_changes [c_app, c_rep] w_logged = (Inr NoneVal, w_done)"
proof -
  show "apply_all no_engine [c_app] w0 = (Inr NoneVal, w_hello)"
    by (simp add: apply_changes_def c_app_def w0_def w_hello_def)
  show "apply_all no_engine [c_rep] w_hello = (Inr NoneVal, w_both)"
    by (simp add: apply_changes_def Let_def c_rep_def w0_def w_hello_def w_both_def
        sample_subs CR_def NL_def)
  show "update_codebase_md [c_app, c_rep] w_both = (Inr NoneVal, w_logged)"
    by (simp add: update_codebase_md_def c_app_def c_rep_def w0_def w_hello_def w_both_def
        w_logged_def codebase_md_path_def header_def)
  have repo: "is_repo w_logged \<and> files w_logged ''b.txt'' \<noteq> None \<and>
      files w_logged ''a.txt'' \<noteq> None \<and> files w_logged ''CODEBASE.md'' \<noteq> None"
    by (simp add: w0_def w_hello_def w_both_def w_logged_def)
  have keys: "c_app ''target_file'' = Some ''b.txt'' \<and> c_app ''description'' = Some ''say hello'' \<and>
      c_rep ''target_file'' = Some ''a.txt'' \<and> c_rep ''description'' = Some ''foo to bar''"
    by (simp add: c_app_def c_rep_def)
  show "commit_changes [c_app, c_rep] w_logged = (Inr NoneVal, w_done)"
    using commit_changes_ok [of w_logged "[c_app, c_rep]"] repo keys
    by (simp add: codebase_md_path_def dom_def w_done_def)
qed

lemma sample_run: "execute no_engine [c_app, c_rep] w0 = (Inr NoneVal, w_done)"
proof -
  have "apply_all no_engine [c_app, c_rep] w0 = (Inr NoneVal, w_both)"
    by (simp add: apply_changes_def Let_def c_app_def c_rep_def w0_def w_hello_def w_both_def
        sample_subs CR_def NL_def)
  then show ?thesis by (simp add: execute_def sample_steps)
qed

lemma script_facts:
  "plain_repl script_repl" "script_literal \<noteq> []"
  "universal_newlines script_stored = script_read"
  "script_updated \<noteq> script_read"
  "sub_all script_literal script_repl script_read = script_updated"
  by (simp_all add: plain_repl_def script_repl_def script_literal_def script_stored_def
      script_read_def script_updated_def BACKSLASH_def QUOTE_def CR_def NL_def)

lemma script_sub: "re_sub eng script_pattern script_repl script_read = Inr script_updated"
  using re_sub_literal [OF script_pattern_literal script_facts(2) script_facts(1), of eng script_read]
  by (simp add: script_facts(5))

text \<open>
  A pattern with a line feed matches across a line end that is stored as CR LF, because
  the match is on the text read.
\<close>

lemma crlf_read_matches:
  "apply_changes no_engine c_xy w_xy =
     (Inr NoneVal, w_xy\<lparr>files := (files w_xy)(''b.txt'' \<mapsto> ''z'')\<rparr>)"
proof -
  have l: "literal_of (''x'' @ [NL] @ ''y'') = Some (''x'' @ [NL] @ ''y'')" "plain_repl ''z''"
    by (simp_all add: special_chars_def BACKSLASH_def plain_repl_def NL_def)
  have "re_sub no_engine (''x'' @ [NL] @ ''y'') ''z'' (''x'' @ [NL] @ ''y'') = Inr ''z''"
    using re_sub_literal [OF l(1) _ l(2), of no_engine "''x'' @ [NL] @ ''y''"] by simp
  then show ?thesis
    by (simp add: apply_changes_def Let_def c_xy_def w_xy_def CR_def NL_def)
qed

section \<open>The order of the phases and the first error\<close>

text \<open>
  C1. \<^verbatim>\<open>execute\<close> applies the changes in list order, then writes the changelog, then
  commits, and the first exception ends the run with nothing undone. When the changes
  \<open>pre\<close> were applied and the next change raises \<open>e\<close>, the run ends with \<open>e\<close> in the
  state that \<open>pre\<close> left: the files hold what \<open>pre\<close> wrote, the failing change and the
  changes after it wrote nothing, the changelog was not written, and the index and the
  history are those of the start. A target file that does not exist gives the error
  \<^verbatim>\<open>File ... not found\<close>. When all changes were applied and the changelog write raises,
  the run ends there and no commit is made. When neither raises, the changes of
  \<open>first\<close> were applied before those of \<open>later\<close>, each on the state the one before
  left, the changelog was written in the state they left, and the run ends as the
  commit phase does in the state the changelog write left.
\<close>

theorem execute_runs_phases_in_order:
  "(apply_all other pre w = (Inr v, w1) \<and> fst (apply_changes other change w1) = Inl e \<longrightarrow>
      execute other (pre @ change # post) w = (Inl e, w1) \<and>
      index w1 = index w \<and> commits w1 = commits w \<and>
      (\<forall>tf. change ''change_type'' \<noteq> None \<and> change ''target_file'' = Some tf \<and>
            files w1 tf = None \<longrightarrow> e = ValueError (''File '' @ tf @ '' not found''))) \<and>
   (apply_all other changes w = (Inr v', w1') \<and>
    update_codebase_md changes w1' = (Inl e', w2') \<longrightarrow>
      execute other changes w = (Inl e', w2') \<and>
      index w2' = index w \<and> commits w2' = commits w) \<and>
   (apply_all other first w = (Inr va, wa) \<and> apply_all other later wa = (Inr vb, wb) \<and>
    update_codebase_md (first @ later) wb = (Inr vc, wc) \<longrightarrow>
      execute other (first @ later) w =
        (case commit_changes (first @ later) wc of
           (Inl e, wd) \<Rightarrow> (Inl e, wd)
         | (Inr _, wd) \<Rightarrow> (Inr NoneVal, wd)))"
proof (intro conjI impI)
  assume a: "apply_all other pre w = (Inr v, w1) \<and> fst (apply_changes other change w1) = Inl e"
  then obtain w2 where f: "apply_changes other change w1 = (Inl e, w2)"
    by (cases "apply_changes other change w1") auto
  from a f show "execute other (pre @ change # post) w = (Inl e, w1)"
    by (simp add: execute_apply_error)
  from a apply_all_repo [of other pre w "Inr v" w1]
  show "index w1 = index w" and "commits w1 = commits w" by simp_all
  show "\<forall>tf. change ''change_type'' \<noteq> None \<and> change ''target_file'' = Some tf \<and>
            files w1 tf = None \<longrightarrow> e = ValueError (''File '' @ tf @ '' not found'')"
    using f by (auto simp: apply_changes_def)
next
  assume b: "apply_all other changes w = (Inr v', w1') \<and>
    update_codebase_md changes w1' = (Inl e', w2')"
  then show "execute other changes w = (Inl e', w2')"
    by (simp add: execute_def)
  from b apply_all_repo [of other changes w "Inr v'" w1']
    update_codebase_md_repo [of changes w1' "Inl e'" w2']
  show "index w2' = index w" and "commits w2' = commits w" by simp_all
next
  assume c: "apply_all other first w = (Inr va, wa) \<and> apply_all other later wa = (Inr vb, wb) \<and>
    update_codebase_md (first @ later) wb = (Inr vc, wc)"
  then have "apply_all other (first @ later) w = (Inr vb, wb)"
    by (simp add: apply_all_append)
  with c show "execute other (first @ later) w =
        (case commit_changes (first @ later) wc of
           (Inl e, wd) \<Rightarrow> (Inl e, wd)
         | (Inr _, wd) \<Rightarrow> (Inr NoneVal, wd))"
    by (simp add: execute_def)
qed

theorem execute_runs_phases_in_order_witness:
  "apply_all no_engine [c_app] w0 = (Inr NoneVal, w_hello) \<and>
   fst (apply_changes no_engine c_missing w_hello) = Inl (ValueError ''File z.txt not found'') \<and>
   execute no_engine ([c_app] @ c_missing # [c_rep]) w0 =
     (Inl (ValueError ''File z.txt not found''), w_hello) \<and>
   files w_hello ''b.txt'' = Some ([NL] @ ''hello'' @ [NL]) \<and>
   files w_hello ''a.txt'' = Some ''foo foo'' \<and>
   files w_hello ''CODEBASE.md'' = None \<and>
   commits w_hello = commits w0 \<and>
   apply_all no_engine [c_nodesc] w0 = (Inr NoneVal, w_x) \<and>
   update_codebase_md [c_nodesc] w_x =
     (Inl (KeyError ''description''), w_x\<lparr>files := (files w_x)(''CODEBASE.md'' \<mapsto> header)\<rparr>) \<and>
   execute no_engine [c_nodesc] w0 =
     (Inl (KeyError ''description''), w_x\<lparr>files := (files w_x)(''CODEBASE.md'' \<mapsto> header)\<rparr>) \<and>
   commits (w_x\<lparr>files := (files w_x)(''CODEBASE.md'' \<mapsto> header)\<rparr>) = commits w0 \<and>
   apply_all no_engine [c_rep] w_hello = (Inr NoneVal, w_both) \<and>
   update_codebase_md ([c_app] @ [c_rep]) w_both = (Inr NoneVal, w_logged) \<and>
   commit_changes ([c_app] @ [c_rep]) w_logged = (Inr NoneVal, w_done) \<and>
   execute no_engine ([c_app] @ [c_rep]) w0 = (Inr NoneVal, w_done) \<and>
   files w_done ''a.txt'' = Some ''bar bar'' \<and>
   files w_done ''b.txt'' = Some ([NL] @ ''hello'' @ [NL]) \<and>
   map message (commits w_done) = [preamble @ ''say hello'' @ [NL] @ ''foo to bar''] \<and>
   map (\<lambda>c. tree c ''CODEBASE.md'') (commits w_done) =
     [Some ([NL, NL] @ ''## Recent Changes'' @ [NL, NL] @ ''- say hello'' @ [NL]
        @ ''- foo to bar'' @ [NL])]"
proof -
  have a: "apply_all no_engine [c_app] w0 = (Inr NoneVal, w_hello)"
    by (simp add: apply_changes_def c_app_def w0_def w_hello_def)
  have b: "fst (apply_changes no_engine c_missing w_hello) = Inl (ValueError ''File z.txt not found'')"
    by (simp add: apply_changes_def c_missing_def w0_def w_hello_def)
  have c: "apply_all no_engine [c_nodesc] w0 = (Inr NoneVal, w_x)"
    by (simp add: apply_changes_def c_nodesc_def w0_def w_x_def)
  have d: "update_codebase_md [c_nodesc] w_x =
     (Inl (KeyError ''description''), w_x\<lparr>files := (files w_x)(''CODEBASE.md'' \<mapsto> header)\<rparr>)"
    by (simp add: update_codebase_md_def c_nodesc_def w0_def w_x_def codebase_md_path_def)
  have e: "files w_hello ''b.txt'' = Some ([NL] @ ''hello'' @ [NL]) \<and>
   files w_hello ''a.txt'' = Some ''foo foo'' \<and> files w_hello ''CODEBASE.md'' = None"
    by (simp add: w_hello_def w0_def)
  have f: "apply_all no_engine [c_rep] w_hello = (Inr NoneVal, w_both)"
    by (simp add: apply_changes_def Let_def c_rep_def w0_def w_hello_def w_both_def
        sample_subs CR_def NL_def)
  have g: "update_codebase_md ([c_app] @ [c_rep]) w_both = (Inr NoneVal, w_logged)"
    by (simp add: update_codebase_md_def c_app_def c_rep_def w0_def w_hello_def w_both_def
        w_logged_def codebase_md_path_def header_def)
  have repo: "is_repo w_logged \<and> files w_logged ''b.txt'' = Some ([NL] @ ''hello'' @ [NL]) \<and>
      files w_logged ''a.txt'' = Some ''bar bar'' \<and>
      files w_logged ''CODEBASE.md'' = Some ([NL, NL] @ ''## Recent Changes'' @ [NL, NL]
        @ ''- say hello'' @ [NL] @ ''- foo to bar'' @ [NL]) \<and> commits w_logged = []"
    by (simp add: w0_def w_hello_def w_both_def w_logged_def)
  have keys: "c_app ''target_file'' = Some ''b.txt'' \<and> c_app ''description'' = Some ''say hello'' \<and>
      c_rep ''target_file'' = Some ''a.txt'' \<and> c_rep ''description'' = Some ''foo to bar''"
    by (simp add: c_app_def c_rep_def)
  have h: "commit_changes ([c_app] @ [c_rep]) w_logged = (Inr NoneVal, w_done)"
    using commit_changes_ok [of w_logged "[c_app] @ [c_rep]"] repo keys
    by (simp add: codebase_md_path_def dom_def w_done_def)
  have obs: "files w_done ''a.txt'' = Some ''bar bar'' \<and>
      files w_done ''b.txt'' = Some ([NL] @ ''hello'' @ [NL]) \<and>
      map message (commits w_done) = [preamble @ ''say hello'' @ [NL] @ ''foo to bar''] \<and>
      map (\<lambda>c. tree c ''CODEBASE.md'') (commits w_done) =
        [Some ([NL, NL] @ ''## Recent Changes'' @ [NL, NL] @ ''- say hello'' @ [NL]
           @ ''- foo to bar'' @ [NL])]"
    using repo by (simp add: w_done_def index_after_def)
  note T = execute_runs_phases_in_order [of no_engine "[c_app]" w0 NoneVal w_hello c_missing
      "ValueError ''File z.txt not found''" "[c_rep]" "[c_nodesc]" NoneVal w_x
      "KeyError ''description''" "w_x\<lparr>files := (files w_x)(''CODEBASE.md'' \<mapsto> header)\<rparr>"
      "[c_app]" NoneVal w_hello "[c_rep]" NoneVal w_both NoneVal w_logged]
  from T a b have 1: "execute no_engine ([c_app] @ c_missing # [c_rep]) w0 =
     (Inl (ValueError ''File z.txt not found''), w_hello) \<and> commits w_hello = commits w0"
    by blast
  from T c d have 2: "execute no_engine [c_nodesc] w0 =
     (Inl (KeyError ''description''), w_x\<lparr>files := (files w_x)(''CODEBASE.md'' \<mapsto> header)\<rparr>) \<and>
     commits (w_x\<lparr>files := (files w_x)(''CODEBASE.md'' \<mapsto> header)\<rparr>) = commits w0"
    by blast
  from T a f g have "execute no_engine ([c_app] @ [c_rep]) w0 =
        (case commit_changes ([c_app] @ [c_rep]) w_logged of
           (Inl e, wd) \<Rightarrow> (Inl e, wd)
         | (Inr _, wd) \<Rightarrow> (Inr NoneVal, wd))"
    by blast
  then have 3: "execute no_engine ([c_app] @ [c_rep]) w0 = (Inr NoneVal, w_done)"
    unfolding h by simp
  from a b c d e f g h obs 1 2 3 show ?thesis by blast
qed

section \<open>A replace that changes nothing\<close>



section \<open>A replace substitutes every match\<close>

text \<open>
  C3, as amended. A replace change on an existing file, when the substitution changes
  the text read, rewrites the file with the result of the substitution on the text
  read in text mode, which is the stored contents with every CR LF and every other CR
  turned into LF. The result is this text with every match replaced, the matches
  found from left to right, each search starting where the match before it ended, and
  it is the only such text. For a pattern that stands for a non-empty string and a
  template without backslash it is the text read with every occurrence of the string
  replaced, from the leftmost on. When the substitution changes nothing the state
  stays as it was.
\<close>

theorem replace_substitutes_all:
  assumes "change ''change_type'' = Some ''replace''"
    and "change ''target_file'' = Some target_file"
    and "files w target_file = Some stored"
    and "change ''search_pattern'' = Some pattern"
    and "change ''replacement'' = Some repl"
    and "re_sub other pattern repl (universal_newlines stored) = Inr updated"
  shows "(updated \<noteq> universal_newlines stored \<longrightarrow>
            apply_changes other change w =
              (Inr NoneVal, w\<lparr>files := (files w)(target_file \<mapsto> updated)\<rparr>)) \<and>
         (updated = universal_newlines stored \<longrightarrow> snd (apply_changes other change w) = w) \<and>
         replaced_all (candidates other pattern repl (universal_newlines stored))
            (universal_newlines stored) 0 False updated \<and>
         (\<forall>t. replaced_all (candidates other pattern repl (universal_newlines stored))
            (universal_newlines stored) 0 False t \<longrightarrow> t = updated) \<and>
         (\<forall>q. literal_of pattern = Some q \<and> q \<noteq> [] \<and> plain_repl repl \<longrightarrow>
            subst_all_spec q repl (universal_newlines stored) updated \<and>
            (\<forall>t. subst_all_spec q repl (universal_newlines stored) t \<longrightarrow> t = updated))"
proof (intro conjI allI impI)
  assume "updated \<noteq> universal_newlines stored"
  with assms show "apply_changes other change w =
      (Inr NoneVal, w\<lparr>files := (files w)(target_file \<mapsto> updated)\<rparr>)"
    by (simp add: apply_changes_def Let_def)
next
  assume "updated = universal_newlines stored"
  with assms show "snd (apply_changes other change w) = w"
    by (simp add: apply_changes_def Let_def)
next
  from assms(6) have u: "updated =
      subx (candidates other pattern repl (universal_newlines stored))
        (universal_newlines stored) 0 False"
    by (simp add: re_sub_def split: option.splits)
  show "replaced_all (candidates other pattern repl (universal_newlines stored))
      (universal_newlines stored) 0 False updated"
    unfolding u by (rule subx_replaced_all)
  fix t
  assume "replaced_all (candidates other pattern repl (universal_newlines stored))
      (universal_newlines stored) 0 False t"
  then show "t = updated" unfolding u by (rule replaced_all_unique)
next
  fix q
  assume lit: "literal_of pattern = Some q \<and> q \<noteq> [] \<and> plain_repl repl"
  with assms(6) have u: "updated = sub_all q repl (universal_newlines stored)"
    by (simp add: re_sub_literal)
  from lit show "subst_all_spec q repl (universal_newlines stored) updated"
    unfolding u by (simp add: subst_all_spec_sub_all)
  fix t
  assume "subst_all_spec q repl (universal_newlines stored) t"
  with lit show "t = updated" unfolding u by (simp add: subst_all_spec_unique)
qed

theorem replace_substitutes_all_witness:
  "c_rep ''change_type'' = Some ''replace'' \<and> c_rep ''target_file'' = Some ''a.txt'' \<and>
   files w0 ''a.txt'' = Some ''foo foo'' \<and> c_rep ''search_pattern'' = Some ''foo'' \<and>
   c_rep ''replacement'' = Some ''bar'' \<and>
   re_sub no_engine ''foo'' ''bar'' (universal_newlines ''foo foo'') = Inr ''bar bar'' \<and>
   ''bar bar'' \<noteq> universal_newlines ''foo foo'' \<and>
   literal_of ''foo'' = Some ''foo'' \<and> ''foo'' \<noteq> [] \<and> plain_repl ''bar'' \<and>
   apply_changes no_engine c_rep w0 =
     (Inr NoneVal, w0\<lparr>files := (files w0)(''a.txt'' \<mapsto> ''bar bar'')\<rparr>) \<and>
   replaced_all (candidates no_engine ''foo'' ''bar'' (universal_newlines ''foo foo''))
     (universal_newlines ''foo foo'') 0 False ''bar bar'' \<and>
   subst_all_spec ''foo'' ''bar'' (universal_newlines ''foo foo'') ''bar bar'' \<and>
   files w_crlf ''a.txt'' = Some (''foo'' @ [CR, NL] @ ''foo'' @ [CR, NL]) \<and>
   re_sub no_engine ''foo'' ''bar'' (universal_newlines (''foo'' @ [CR, NL] @ ''foo'' @ [CR, NL])) =
     Inr (''bar'' @ [NL] @ ''bar'' @ [NL]) \<and>
   apply_changes no_engine c_rep w_crlf =
     (Inr NoneVal, w_crlf\<lparr>files := (files w_crlf)(''a.txt'' \<mapsto> ''bar'' @ [NL] @ ''bar'' @ [NL])\<rparr>) \<and>
   c_nomatch ''search_pattern'' = Some ''qux'' \<and>
   re_sub no_engine ''qux'' ''bar'' (universal_newlines ''foo foo'') =
     Inr (universal_newlines ''foo foo'') \<and>
   snd (apply_changes no_engine c_nomatch w0) = w0 \<and>
   c_script ''search_pattern'' = Some script_pattern \<and>
   c_script ''replacement'' = Some script_repl \<and>
   files w_script ''backend/app/api/chat_routes.py'' = Some script_stored \<and>
   literal_of script_pattern = Some script_literal \<and> plain_repl script_repl \<and>
   re_sub no_engine script_pattern script_repl (universal_newlines script_stored) =
     Inr script_updated \<and>
   apply_changes no_engine c_script w_script =
     (Inr NoneVal,
      w_script\<lparr>files := (files w_script)(''backend/app/api/chat_routes.py'' \<mapsto> script_updated)\<rparr>) \<and>
   subst_all_spec script_literal script_repl (universal_newlines script_stored) script_updated"
proof -
  have a: "c_rep ''change_type'' = Some ''replace''" "c_rep ''target_file'' = Some ''a.txt''"
     "c_rep ''search_pattern'' = Some ''foo''" "c_rep ''replacement'' = Some ''bar''"
    by (simp_all add: c_rep_def)
  have b: "files w0 ''a.txt'' = Some ''foo foo''"
    by (simp add: w0_def)
  have r: "universal_newlines ''foo foo'' = ''foo foo''"
    by (simp add: CR_def NL_def)
  have d: "re_sub no_engine ''foo'' ''bar'' (universal_newlines ''foo foo'') = Inr ''bar bar''"
    unfolding r by (rule sample_subs)
  have ne: "''bar bar'' \<noteq> universal_newlines ''foo foo''" unfolding r by simp
  note l = sample_literals(1) sample_literals(4)
  have n: "''foo'' \<noteq> []" by simp
  note T = replace_substitutes_all [OF a(1) a(2) b a(3) a(4) d]
  from T ne have 1: "apply_changes no_engine c_rep w0 =
     (Inr NoneVal, w0\<lparr>files := (files w0)(''a.txt'' \<mapsto> ''bar bar'')\<rparr>)" by blast
  from T have 2: "replaced_all (candidates no_engine ''foo'' ''bar'' (universal_newlines ''foo foo''))
     (universal_newlines ''foo foo'') 0 False ''bar bar''" by blast
  from T l n have 3: "subst_all_spec ''foo'' ''bar'' (universal_newlines ''foo foo'') ''bar bar''"
    by blast
  have b': "files w_crlf ''a.txt'' = Some (''foo'' @ [CR, NL] @ ''foo'' @ [CR, NL])"
    by (simp add: w_crlf_def)
  have r': "universal_newlines (''foo'' @ [CR, NL] @ ''foo'' @ [CR, NL]) = ''foo'' @ [NL] @ ''foo'' @ [NL]"
    by (simp add: CR_def NL_def)
  have d': "re_sub no_engine ''foo'' ''bar'' (universal_newlines (''foo'' @ [CR, NL] @ ''foo'' @ [CR, NL])) =
     Inr (''bar'' @ [NL] @ ''bar'' @ [NL])"
    unfolding r' by (rule sample_subs)
  have ne': "''bar'' @ [NL] @ ''bar'' @ [NL] \<noteq> universal_newlines (''foo'' @ [CR, NL] @ ''foo'' @ [CR, NL])"
    unfolding r' by simp
  from replace_substitutes_all [OF a(1) a(2) b' a(3) a(4) d'] ne'
  have 4: "apply_changes no_engine c_rep w_crlf =
     (Inr NoneVal, w_crlf\<lparr>files := (files w_crlf)(''a.txt'' \<mapsto> ''bar'' @ [NL] @ ''bar'' @ [NL])\<rparr>)"
    by blast
  have an: "c_nomatch ''change_type'' = Some ''replace''" "c_nomatch ''target_file'' = Some ''a.txt''"
     "c_nomatch ''search_pattern'' = Some ''qux''" "c_nomatch ''replacement'' = Some ''bar''"
    by (simp_all add: c_nomatch_def)
  have dn: "re_sub no_engine ''qux'' ''bar'' (universal_newlines ''foo foo'') =
     Inr (universal_newlines ''foo foo'')"
    unfolding r by (rule sample_subs)
  from replace_substitutes_all [OF an(1) an(2) b an(3) an(4) dn]
  have 7: "snd (apply_changes no_engine c_nomatch w0) = w0" by blast
  have k: "c_script ''change_type'' = Some ''replace''"
    "c_script ''target_file'' = Some ''backend/app/api/chat_routes.py''"
    "c_script ''search_pattern'' = Some script_pattern"
    "c_script ''replacement'' = Some script_repl"
    by (simp_all add: c_script_def)
  have f: "files w_script ''backend/app/api/chat_routes.py'' = Some script_stored"
    by (simp add: w_script_def)
  have ds: "re_sub no_engine script_pattern script_repl (universal_newlines script_stored) =
     Inr script_updated"
    unfolding script_facts(3) by (rule script_sub)
  have nes: "script_updated \<noteq> universal_newlines script_stored"
    unfolding script_facts(3) by (rule script_facts(4))
  note S = replace_substitutes_all [OF k(1) k(2) f k(3) k(4) ds]
  from S nes have 5: "apply_changes no_engine c_script w_script =
     (Inr NoneVal,
      w_script\<lparr>files := (files w_script)(''backend/app/api/chat_routes.py'' \<mapsto> script_updated)\<rparr>)"
    by blast
  from S script_pattern_literal script_facts(1,2)
  have 6: "subst_all_spec script_literal script_repl (universal_newlines script_stored) script_updated"
    by blast
  from a b d ne l n 1 2 3 b' d' 4 an dn 7 k f ds 5 6 script_pattern_literal script_facts(1)
  show ?thesis by blast
qed

text \<open>
  The claim as it was stated, with the stored contents in place of the text read,
  fails on a file with CR LF line ends: the file that the change writes has LF line
  ends, and is not the stored contents with every occurrence replaced.
\<close>

theorem replace_rewrites_line_ends_counterexample:
  "c_rep ''change_type'' = Some ''replace'' \<and> c_rep ''target_file'' = Some ''a.txt'' \<and>
   c_rep ''search_pattern'' = Some ''foo'' \<and> c_rep ''replacement'' = Some ''bar'' \<and>
   files w_crlf ''a.txt'' = Some (''foo'' @ [CR, NL] @ ''foo'' @ [CR, NL]) \<and>
   fst (apply_changes no_engine c_rep w_crlf) = Inr NoneVal \<and>
   files (snd (apply_changes no_engine c_rep w_crlf)) ''a.txt'' =
     Some (''bar'' @ [NL] @ ''bar'' @ [NL]) \<and>
   subst_all_spec ''foo'' ''bar'' (''foo'' @ [CR, NL] @ ''foo'' @ [CR, NL])
     (''bar'' @ [CR, NL] @ ''bar'' @ [CR, NL]) \<and>
   ''bar'' @ [NL] @ ''bar'' @ [NL] \<noteq> ''bar'' @ [CR, NL] @ ''bar'' @ [CR, NL] \<and>
   \<not> subst_all_spec ''foo'' ''bar'' (''foo'' @ [CR, NL] @ ''foo'' @ [CR, NL])
     (''bar'' @ [NL] @ ''bar'' @ [NL])"
proof -
  have a: "c_rep ''change_type'' = Some ''replace'' \<and> c_rep ''target_file'' = Some ''a.txt'' \<and>
     c_rep ''search_pattern'' = Some ''foo'' \<and> c_rep ''replacement'' = Some ''bar''"
    by (simp add: c_rep_def)
  have b: "files w_crlf ''a.txt'' = Some (''foo'' @ [CR, NL] @ ''foo'' @ [CR, NL])"
    by (simp add: w_crlf_def)
  have r: "universal_newlines (''foo'' @ [CR, NL] @ ''foo'' @ [CR, NL]) = ''foo'' @ [NL] @ ''foo'' @ [NL]"
    by (simp add: CR_def NL_def)
  have ap: "apply_changes no_engine c_rep w_crlf =
     (Inr NoneVal, w_crlf\<lparr>files := (files w_crlf)(''a.txt'' \<mapsto> ''bar'' @ [NL] @ ''bar'' @ [NL])\<rparr>)"
    using a b sample_subs(8) [of no_engine]
    by (simp add: apply_changes_def Let_def CR_def NL_def)
  have s: "sub_all ''foo'' ''bar'' (''foo'' @ [CR, NL] @ ''foo'' @ [CR, NL]) =
      ''bar'' @ [CR, NL] @ ''bar'' @ [CR, NL]"
    by (simp add: CR_def NL_def)
  have sp: "subst_all_spec ''foo'' ''bar'' (''foo'' @ [CR, NL] @ ''foo'' @ [CR, NL])
     (''bar'' @ [CR, NL] @ ''bar'' @ [CR, NL])"
    using subst_all_spec_sub_all [of "''foo''" "''bar''" "''foo'' @ [CR, NL] @ ''foo'' @ [CR, NL]"]
    unfolding s by simp
  have ne: "''bar'' @ [NL] @ ''bar'' @ [NL] \<noteq> ''bar'' @ [CR, NL] @ ''bar'' @ [CR, NL]"
    by (simp add: CR_def NL_def)
  have nsp: "\<not> subst_all_spec ''foo'' ''bar'' (''foo'' @ [CR, NL] @ ''foo'' @ [CR, NL])
     (''bar'' @ [NL] @ ''bar'' @ [NL])"
  proof
    assume "subst_all_spec ''foo'' ''bar'' (''foo'' @ [CR, NL] @ ''foo'' @ [CR, NL])
     (''bar'' @ [NL] @ ''bar'' @ [NL])"
    then have "''bar'' @ [NL] @ ''bar'' @ [NL] =
        sub_all ''foo'' ''bar'' (''foo'' @ [CR, NL] @ ''foo'' @ [CR, NL])"
      by (rule subst_all_spec_unique) simp
    with s ne show False by simp
  qed
  from ap have f: "fst (apply_changes no_engine c_rep w_crlf) = Inr NoneVal"
    and g: "files (snd (apply_changes no_engine c_rep w_crlf)) ''a.txt'' =
     Some (''bar'' @ [NL] @ ''bar'' @ [NL])" by simp_all
  from a b f g sp ne nsp show ?thesis by blast
qed

section \<open>Appending\<close>

text \<open>
  C4. An append change on an existing file succeeds and leaves the file holding its old
  contents followed by the content of the change, character for character; no other
  file and nothing of the repository changes.
\<close>

theorem append_concatenates:
  assumes "change ''change_type'' = Some ''append''"
    and "change ''target_file'' = Some target_file"
    and "files w target_file = Some old"
    and "change ''content'' = Some text"
  shows "apply_changes other change w =
           (Inr NoneVal, w\<lparr>files := (files w)(target_file \<mapsto> old @ text)\<rparr>)"
  using assms by (simp add: apply_changes_def)

theorem append_concatenates_witness:
  "c_app ''change_type'' = Some ''append'' \<and> c_app ''target_file'' = Some ''b.txt'' \<and>
   files w0 ''b.txt'' = Some [] \<and> c_app ''content'' = Some ([NL] @ ''hello'' @ [NL]) \<and>
   apply_changes no_engine c_app w0 =
     (Inr NoneVal, w0\<lparr>files := (files w0)(''b.txt'' \<mapsto> [] @ ([NL] @ ''hello'' @ [NL]))\<rparr>)"
  using append_concatenates [of c_app "''b.txt''" w0 "[]" "[NL] @ ''hello'' @ [NL]" no_engine]
  by (simp add: c_app_def w0_def)

section \<open>What \<^verbatim>\<open>execute\<close> returns\<close>

text \<open>
  C5, as amended. \<^verbatim>\<open>commit_changes\<close> drops the commit that \<^verbatim>\<open>index.commit\<close> returns
  and \<^verbatim>\<open>execute\<close> has no return statement: a run that succeeds returns \<^verbatim>\<open>None\<close>,
  not the new commit, which is the one commit added to the history.
\<close>

theorem execute_returns_none:
  assumes "execute other changes w = (Inr v, w')"
  shows "v = NoneVal \<and> (\<exists>c. commits w' = commits w @ [c] \<and> v \<noteq> CommitVal c)"
proof -
  from assms obtain v1 w1 where a: "apply_all other changes w = (Inr v1, w1)"
    by (auto simp: execute_def split: prod.splits sum.splits)
  with assms obtain v2 w2 where b: "update_codebase_md changes w1 = (Inr v2, w2)"
    by (auto simp: execute_def split: prod.splits sum.splits)
  with assms a obtain v3 where c: "commit_changes changes w2 = (Inr v3, w')"
    by (auto simp: execute_def split: prod.splits sum.splits)
  from assms a b c have v: "v = NoneVal"
    by (simp add: execute_def)
  from apply_all_repo [OF a] update_codebase_md_repo [OF b]
  have "commits w2 = commits w" by simp
  with commit_changes_commits [OF c] v show ?thesis by auto
qed

theorem execute_returns_none_witness:
  "execute no_engine [c_app, c_rep] w0 =
     (Inr NoneVal, snd (execute no_engine [c_app, c_rep] w0)) \<and>
   length (commits (snd (execute no_engine [c_app, c_rep] w0))) = 1"
proof -
  have a: "execute no_engine [c_app, c_rep] w0 =
     (Inr NoneVal, snd (execute no_engine [c_app, c_rep] w0))"
    by (simp add: sample_run)
  have "commits w0 = []" by (simp add: w0_def)
  with a execute_returns_none [OF a] show ?thesis by auto
qed

text \<open>
  The sample run succeeds, makes one commit and returns \<^verbatim>\<open>None\<close>, which is not that
  commit.
\<close>

theorem execute_returns_commit_counterexample:
  "fst (execute no_engine [c_app, c_rep] w0) = Inr NoneVal \<and>
   map message (commits (snd (execute no_engine [c_app, c_rep] w0))) =
     [''Refactorizor script applied with the following changes:'' @ [NL]
        @ ''say hello'' @ [NL] @ ''foo to bar''] \<and>
   fst (execute no_engine [c_app, c_rep] w0) \<noteq>
     Inr (CommitVal (last (commits (snd (execute no_engine [c_app, c_rep] w0)))))"
  unfolding sample_run
  by (simp add: w_done_def w_logged_def w_both_def w_hello_def w0_def preamble_def)

section \<open>Staging and the commit message\<close>

text \<open>
  C6, as amended. In a repository, with every target file and the changelog present,
  the commit phase hands \<^verbatim>\<open>index.add\<close> the changelog path followed by the target file
  of every change in input order, a path once for each change that names it; the index
  then holds the current contents of the changelog and of each target file, and one
  commit of that index is added, whose message is the preamble followed by the
  descriptions in input order, one per line.
\<close>

theorem commit_changes_stages_and_commits:
  assumes "is_repo w"
    and "\<forall>c \<in> set changes. c ''target_file'' \<noteq> None \<and> c ''description'' \<noteq> None"
    and "\<forall>c \<in> set changes. the (c ''target_file'') \<in> dom (files w)"
    and "codebase_md_path \<in> dom (files w)"
  shows "add_paths changes =
           Inr (codebase_md_path # map (\<lambda>c. the (c ''target_file'')) changes) \<and>
         commit_changes changes w =
           (Inr NoneVal,
            w\<lparr>index := index_after (codebase_md_path # map (\<lambda>c. the (c ''target_file'')) changes) w,
              commits := commits w @
                [\<lparr>message = preamble
                     @ join [NL] (map (\<lambda>c. the (c ''description'')) changes),
                  tree = index_after
                     (codebase_md_path # map (\<lambda>c. the (c ''target_file'')) changes) w\<rparr>]\<rparr>) \<and>
         dom (index_after (codebase_md_path # map (\<lambda>c. the (c ''target_file'')) changes) w) =
           dom (index w) \<union> {codebase_md_path} \<union> (\<lambda>c. the (c ''target_file'')) ` set changes"
proof -
  let ?ps = "codebase_md_path # map (\<lambda>c. the (c ''target_file'')) changes"
  from assms(2) have "lookup_all ''target_file'' changes =
      Inr (map (\<lambda>c. the (c ''target_file'')) changes)"
    by (intro lookup_all_ok) simp
  then have p: "add_paths changes = Inr ?ps"
    by (simp add: add_paths_def)
  have sub: "set ?ps \<subseteq> dom (files w)"
    using assms(3,4) by auto
  have "dom (index_after ?ps w) =
      dom (index w) \<union> {codebase_md_path} \<union> (\<lambda>c. the (c ''target_file'')) ` set changes"
    using sub by (auto simp: index_after_def dom_def split: if_splits)
  with p commit_changes_ok [OF assms] show ?thesis by simp
qed

theorem commit_changes_stages_and_commits_witness:
  "is_repo w_doc \<and> c_app ''target_file'' \<noteq> None \<and> c_app ''description'' \<noteq> None \<and>
   the (c_app ''target_file'') \<in> dom (files w_doc) \<and>
   codebase_md_path \<in> dom (files w_doc) \<and>
   add_paths [c_app, c_app] = Inr [''CODEBASE.md'', ''b.txt'', ''b.txt''] \<and>
   fst (commit_changes [c_app, c_app] w_doc) = Inr NoneVal \<and>
   map message (commits (snd (commit_changes [c_app, c_app] w_doc))) =
     [preamble @ ''say hello'' @ [NL] @ ''say hello''] \<and>
   index (snd (commit_changes [c_app, c_app] w_doc)) ''b.txt'' = Some [] \<and>
   index (snd (commit_changes [c_app, c_app] w_doc)) ''CODEBASE.md'' = Some header \<and>
   index (snd (commit_changes [c_app, c_app] w_doc)) ''a.txt'' = None"
proof -
  have a: "is_repo w_doc \<and> c_app ''target_file'' = Some ''b.txt'' \<and>
      c_app ''description'' = Some ''say hello'' \<and>
      files w_doc ''b.txt'' = Some [] \<and> files w_doc ''CODEBASE.md'' = Some header \<and>
      index w_doc ''a.txt'' = None \<and> commits w_doc = []"
    by (simp add: w_doc_def w0_def c_app_def)
  from a commit_changes_stages_and_commits [of w_doc "[c_app, c_app]"]
  show ?thesis
    by (simp add: codebase_md_path_def index_after_def dom_def)
qed

text \<open>
  Two changes to the same file: the list of paths to stage names the file twice.
\<close>

theorem staged_paths_distinct_counterexample:
  "add_paths [c_app, c_app] = Inr [''CODEBASE.md'', ''b.txt'', ''b.txt''] \<and>
   \<not> distinct [''CODEBASE.md'', ''b.txt'', ''b.txt''] \<and>
   fst (execute no_engine [c_app, c_app] w0) = Inr NoneVal"
  by (simp add: execute_def apply_changes_def update_codebase_md_def commit_changes_def
      add_paths_def commit_message_def index_commit_def index_add_def Let_def c_app_def w0_def
      codebase_md_path_def)

section \<open>The changelog\<close>

text \<open>
  C7. When every change has a description, \<^verbatim>\<open>update_codebase_md\<close> succeeds and leaves
  the changelog holding its old contents (none when the file did not exist), then the
  header with \<^verbatim>\<open>## Recent Changes\<close>, then one line \<^verbatim>\<open>- description\<close> for each change
  in input order; nothing else changes.
\<close>

theorem update_codebase_md_appends:
  assumes "\<forall>c \<in> set changes. c ''description'' \<noteq> None"
  shows "update_codebase_md changes w =
           (Inr NoneVal,
            w\<lparr>files := (files w)(codebase_md_path \<mapsto>
                 (case files w codebase_md_path of None \<Rightarrow> [] | Some s \<Rightarrow> s)
                 @ [NL, NL] @ ''## Recent Changes'' @ [NL, NL]
                 @ concat (map (\<lambda>c. ''- '' @ the (c ''description'') @ [NL]) changes))\<rparr>)"
  using write_bullets_ok [OF assms]
  by (simp add: update_codebase_md_def header_def)

theorem update_codebase_md_appends_witness:
  "c_app ''description'' \<noteq> None \<and> c_rep ''description'' \<noteq> None \<and>
   files w0 codebase_md_path = None \<and>
   update_codebase_md [c_app, c_rep] w0 =
     (Inr NoneVal,
      w0\<lparr>files := (files w0)(codebase_md_path \<mapsto>
           [NL, NL] @ ''## Recent Changes'' @ [NL, NL]
           @ ''- say hello'' @ [NL] @ ''- foo to bar'' @ [NL])\<rparr>)"
  using update_codebase_md_appends [of "[c_app, c_rep]" w0]
  by (simp add: c_app_def c_rep_def w0_def codebase_md_path_def)

section \<open>An unknown change type\<close>

text \<open>
  C8. A change whose type is neither \<^verbatim>\<open>append\<close> nor \<^verbatim>\<open>replace\<close>, on a target file
  that exists, fails with \<^verbatim>\<open>Unknown change_type: ...\<close> and leaves every file as it was.
\<close>

theorem unknown_change_type_fails:
  assumes "change ''change_type'' = Some change_type"
    and "change_type \<noteq> ''append''" and "change_type \<noteq> ''replace''"
    and "change ''target_file'' = Some target_file"
    and "files w target_file = Some content"
  shows "apply_changes other change w =
           (Inl (ValueError (''Unknown change_type: '' @ change_type)), w)"
  using assms by (simp add: apply_changes_def)

theorem unknown_change_type_fails_witness:
  "c_delete ''change_type'' = Some ''delete'' \<and> ''delete'' \<noteq> ''append'' \<and>
   ''delete'' \<noteq> ''replace'' \<and> c_delete ''target_file'' = Some ''a.txt'' \<and>
   files w0 ''a.txt'' = Some ''foo foo'' \<and>
   apply_changes no_engine c_delete w0 = (Inl (ValueError ''Unknown change_type: delete''), w0)"
  using unknown_change_type_fails [of c_delete "''delete''" "''a.txt''" w0 "''foo foo''" no_engine]
  by (simp add: c_delete_def w0_def)

section \<open>Substituting a second time\<close>




section \<open>The empty list of changes\<close>

text \<open>
  C10. With no changes \<^verbatim>\<open>execute\<close> still appends the header to the changelog, with
  no bullet after it, and goes on to the commit phase: in a repository it stages the
  changelog and adds a commit whose message is the preamble alone; outside one it
  raises after the changelog was written.
\<close>

theorem execute_empty_changeset:
  "execute other [] w =
     (if is_repo w
      then (Inr NoneVal,
            w\<lparr>files := (files w)(codebase_md_path \<mapsto>
                  (case files w codebase_md_path of None \<Rightarrow> [] | Some s \<Rightarrow> s) @ header),
              index := (index w)(codebase_md_path \<mapsto>
                  (case files w codebase_md_path of None \<Rightarrow> [] | Some s \<Rightarrow> s) @ header),
              commits := commits w @
                [\<lparr>message = preamble,
                  tree = (index w)(codebase_md_path \<mapsto>
                    (case files w codebase_md_path of None \<Rightarrow> [] | Some s \<Rightarrow> s) @ header)\<rparr>]\<rparr>)
      else (Inl InvalidGitRepositoryError,
            w\<lparr>files := (files w)(codebase_md_path \<mapsto>
                  (case files w codebase_md_path of None \<Rightarrow> [] | Some s \<Rightarrow> s) @ header)\<rparr>))"
  by (simp add: execute_def update_codebase_md_def commit_changes_def add_paths_def
      commit_message_def index_commit_def index_add_def Let_def)

end
